theory Spec2Isabelle
  imports Complex_Main "HOL-Library.Word" "HOL-Library.Char_ord" "HOL-Library.List_Lexorder"
    "HOL-Library.Multiset" "HOL-Library.Log_Nat"
begin

unbundle bit_operations_syntax

section \<open>JavaScript numbers and the conversion options\<close>

text \<open>
  A JavaScript \<^verbatim>\<open>number\<close> is an IEEE 754 double: a finite value, modelled by the real
  that it denotes (the two zeros are not told apart), or one of the three non-finite
  values.
\<close>

datatype number = Finite real | NaN | PosInfinity | NegInfinity

fun isFinite :: "number \<Rightarrow> bool" where
  "isFinite (Finite r) = True"
| "isFinite NaN = False"
| "isFinite PosInfinity = False"
| "isFinite NegInfinity = False"

text \<open>\<^verbatim>\<open>Number.isInteger\<close>: a finite value with no fractional part.\<close>

fun isInteger :: "number \<Rightarrow> bool" where
  "isInteger (Finite r) = (real_of_int \<lfloor>r\<rfloor> = r)"
| "isInteger NaN = False"
| "isInteger PosInfinity = False"
| "isInteger NegInfinity = False"

text \<open>
  The result of \<^verbatim>\<open>*\<close> or \<^verbatim>\<open>/\<close> on finite doubles is the exact result rounded to the
  nearest double, ties to the even significand. The doubles around \<open>x\<close> with
  \<open>2^e \<le> |x| < 2^(e+1)\<close> are the multiples of \<open>2^(e - 52)\<close>, and the multiples of
  \<open>2^(- 1074)\<close> for the subnormal numbers below \<open>2^(- 1022)\<close>. \<open>binaryExponent x\<close> is this
  \<open>e\<close>, computed from the number of bits of an integer. Overflow to \<^verbatim>\<open>Infinity\<close>, at
  \<open>2^1024\<close>, is not modelled: the products and quotients below stay under \<open>2^58\<close>.
\<close>

definition binaryExponent :: "real \<Rightarrow> int" where
  "binaryExponent x =
     (if 1 \<le> \<bar>x\<bar> then bitlen \<lfloor>\<bar>x\<bar>\<rfloor> - 1 else - bitlen (\<lceil>1 / \<bar>x\<bar>\<rceil> - 1))"

definition ulp :: "real \<Rightarrow> real" where
  "ulp x = 2 powi (max (binaryExponent x) (- 1022) - 52)"

definition roundTiesToEven :: "real \<Rightarrow> int" where
  "roundTiesToEven x =
     (let n = \<lfloor>x\<rfloor>; rest = x - of_int n
      in if rest < 1 / 2 then n
         else if 1 / 2 < rest then n + 1
         else if even n then n else n + 1)"

definition roundDouble :: "real \<Rightarrow> real" where
  "roundDouble x = (if x = 0 then 0 else of_int (roundTiesToEven (x / ulp x)) * ulp x)"

datatype Device = X4 | X3

datatype Orientation = Landscape | Portrait

text \<open>\<^verbatim>\<open>ConversionOptions\<close> of \<^verbatim>\<open>src/lib/conversion/types.ts\<close>.\<close>

record ConversionOptions =
  device :: Device
  splitMode :: string
  dithering :: string
  contrast :: number
  horizontalMargin :: number
  verticalMargin :: number
  orientation :: Orientation
  landscapeFlipClockwise :: bool
  showProgressPreview :: bool

section \<open>Cropping: \<^verbatim>\<open>getAxisCropRect\<close>\<close>

text \<open>
  \<^verbatim>\<open>CropRect\<close> of \<^verbatim>\<open>converter.ts\<close> and \<^verbatim>\<open>convert-page.worker.ts\<close>; the fields
  \<^verbatim>\<open>x, y, width, height\<close> carry the prefix \<open>rect_\<close>.
\<close>

record CropRect =
  rect_x :: int
  rect_y :: int
  rect_width :: int
  rect_height :: int

text \<open>
  \<^verbatim>\<open>
  function clampMarginPercent(value: number): number {
    if (!Number.isFinite(value)) return 0
    return Math.max(0, Math.min(20, value))
  }
  \<close>
\<close>

fun clampMarginPercent :: "number \<Rightarrow> real" where
  "clampMarginPercent (Finite v) = max 0 (min 20 v)"
| "clampMarginPercent NaN = 0"
| "clampMarginPercent PosInfinity = 0"
| "clampMarginPercent NegInfinity = 0"

text \<open>
  \<^verbatim>\<open>
  const maxCropX = Math.floor((sourceWidth - 1) / 2)
  const maxCropY = Math.floor((sourceHeight - 1) / 2)
  const cropX = Math.min(Math.floor(sourceWidth * horizontalMargin / 100), maxCropX)
  const cropY = Math.min(Math.floor(sourceHeight * verticalMargin / 100), maxCropY)
  return { x: cropX, y: cropY,
           width: Math.max(1, sourceWidth - cropX * 2),
           height: Math.max(1, sourceHeight - cropY * 2) }
  \<close>
  The source dimensions are the width and height of an image, integers below \<open>2^53\<close>:
  on these \<^verbatim>\<open>sourceWidth - 1\<close>, the quotient by 2, \<^verbatim>\<open>cropX * 2\<close> and the difference are
  exact in doubles, and \<open>div\<close> on \<open>int\<close> rounds down as \<^verbatim>\<open>Math.floor\<close> of the quotient
  does. The margin is any double, so the product \<^verbatim>\<open>sourceWidth * horizontalMargin\<close> and
  its quotient by 100 are rounded.
\<close>

definition getAxisCropRect :: "int \<Rightarrow> int \<Rightarrow> 'a ConversionOptions_scheme \<Rightarrow> CropRect" where
  "getAxisCropRect sourceWidth sourceHeight options =
     (let hMargin = clampMarginPercent (horizontalMargin options);
          vMargin = clampMarginPercent (verticalMargin options);
          maxCropX = (sourceWidth - 1) div 2;
          maxCropY = (sourceHeight - 1) div 2;
          cropX = min \<lfloor>roundDouble (roundDouble (real_of_int sourceWidth * hMargin) / 100)\<rfloor>
                    maxCropX;
          cropY = min \<lfloor>roundDouble (roundDouble (real_of_int sourceHeight * vMargin) / 100)\<rfloor>
                    maxCropY
      in \<lparr> rect_x = cropX, rect_y = cropY,
           rect_width = max 1 (sourceWidth - cropX * 2),
           rect_height = max 1 (sourceHeight - cropY * 2) \<rparr>)"

section \<open>Output names\<close>

text \<open>
  \<^verbatim>\<open>String(pageNum)\<close> for a page number: its decimal digits, most significant first.
\<close>

definition digitChar :: "nat \<Rightarrow> char" where
  "digitChar d = char_of (48 + d)"

function String_of :: "nat \<Rightarrow> string" where
  "String_of n = (if n < 10 then [digitChar n] else String_of (n div 10) @ [digitChar (n mod 10)])"
  by pat_completeness auto
termination
  by (relation "measure id") auto

declare String_of.simps [simp del]

text \<open>\<^verbatim>\<open>s.padStart(targetLength, '0')\<close>: zeros in front, none when \<open>s\<close> is long enough.\<close>

definition padStart :: "nat \<Rightarrow> char \<Rightarrow> string \<Rightarrow> string" where
  "padStart targetLength c s = replicate (targetLength - length s) c @ s"

text \<open>
  \<^verbatim>\<open>String.fromCharCode(97 + idx)\<close>. A \<open>char\<close> of HOL is a byte, so the model agrees
  with the UTF-16 code unit of the source for \<open>97 + idx < 256\<close>.
\<close>

definition fromCharCode :: "nat \<Rightarrow> string" where
  "fromCharCode code = [char_of code]"

text \<open>
  The template literals
  \<^verbatim>\<open>`${String(pageNum).padStart(4, '0')}_0_page.png`\<close>,
  \<^verbatim>\<open>`..._0_spread.png`\<close>, \<^verbatim>\<open>`..._2_a.png`\<close>, \<^verbatim>\<open>`..._2_b.png`\<close> and
  \<^verbatim>\<open>`..._3_${letter}.png`\<close>: a four-digit page number, the split kind and a suffix.
\<close>

definition pageName :: "nat \<Rightarrow> string \<Rightarrow> string \<Rightarrow> string" where
  "pageName pageNum kind suffix =
     padStart 4 (CHR ''0'') (String_of pageNum) @ ''_'' @ kind @ ''_'' @ suffix @ ''.png''"

section \<open>Page processing: \<^verbatim>\<open>processLoadedImage\<close>\<close>

text \<open>
  One segment of \<^verbatim>\<open>calculateOverlapSegments\<close>: the fields \<^verbatim>\<open>x, y, w, h\<close> with the
  prefix \<open>seg_\<close>. The function itself (\<^verbatim>\<open>processing/image\<close>) is a parameter of the
  model.
\<close>

record Segment =
  seg_x :: int
  seg_y :: int
  seg_w :: int
  seg_h :: int

text \<open>
  Every page object of the source has a \<^verbatim>\<open>name\<close>; the page records extend \<open>Named\<close>.
  A processed page: its name, and in place of the canvas the rectangle of the cropped,
  grey-scaled source canvas that is drawn into it and the rotation applied
  (\<open>0\<close> where the source does not rotate). Contrast, grey-scaling, resizing with padding
  and dithering change pixel values only and are not modelled.
\<close>

record Named =
  name :: string

record ProcessedPage = Named +
  src_x :: int
  src_y :: int
  src_w :: int
  src_h :: int
  rotation :: int

text \<open>
  \<^verbatim>\<open>extractAndRotate(canvas, x, y, w, h, degrees)\<close> draws the rectangle
  \<open>(x, y, w, h)\<close> of the canvas and rotates it; \<^verbatim>\<open>rotateCanvas(canvas, degrees)\<close>
  and the portrait branch draw the whole canvas.
\<close>

definition extractAndRotate :: "string \<Rightarrow> int \<Rightarrow> int \<Rightarrow> int \<Rightarrow> int \<Rightarrow> int \<Rightarrow> ProcessedPage" where
  "extractAndRotate nm sx sy sw sh degrees =
     \<lparr> name = nm, src_x = sx, src_y = sy, src_w = sw, src_h = sh, rotation = degrees \<rparr>"

text \<open>
  \<^verbatim>\<open>processLoadedImage\<close> of \<^verbatim>\<open>converter.ts\<close>; \<^verbatim>\<open>processCanvasAsImage\<close> there and
  \<^verbatim>\<open>processBitmap\<close> of \<^verbatim>\<open>convert-page.worker.ts\<close> take the same branches with the
  same rectangles and names.
  \<^verbatim>\<open>
  const crop = getAxisCropRect(img.width, img.height, options)
  const width = crop.width
  const height = crop.height
  if (options.orientation === 'portrait') { ... `_0_page.png` ...; return results }
  const landscapeRotation = options.landscapeFlipClockwise ? -90 : 90
  const shouldSplit = width < height && options.splitMode !== 'nosplit'
  if (shouldSplit) {
    if (options.splitMode === 'overlap') {
      const segments = calculateOverlapSegments(width, height)
      segments.forEach((seg, idx) => {
        const letter = String.fromCharCode(97 + idx)
        extractAndRotate(canvas, seg.x, seg.y, seg.w, seg.h, landscapeRotation) ... `_3_${letter}.png`
      })
    } else {
      const halfHeight = Math.floor(height / 2)
      extractAndRotate(canvas, 0, 0, width, halfHeight, landscapeRotation)          ... `_2_a.png`
      extractAndRotate(canvas, 0, halfHeight, width, halfHeight, landscapeRotation) ... `_2_b.png`
    }
  } else { rotateCanvas(canvas, landscapeRotation) ... `_0_spread.png` }
  \<close>
\<close>

definition processLoadedImage ::
  "(int \<Rightarrow> int \<Rightarrow> Segment list) \<Rightarrow> int \<Rightarrow> int \<Rightarrow> nat \<Rightarrow> 'a ConversionOptions_scheme
     \<Rightarrow> ProcessedPage list" where
  "processLoadedImage calculateOverlapSegments imgWidth imgHeight pageNum options =
     (let crop = getAxisCropRect imgWidth imgHeight options;
          width = rect_width crop;
          height = rect_height crop
      in if orientation options = Portrait
         then [extractAndRotate (pageName pageNum ''0'' ''page'') 0 0 width height 0]
         else
           let landscapeRotation = (if landscapeFlipClockwise options then - 90 else 90);
               shouldSplit = (width < height \<and> splitMode options \<noteq> ''nosplit'')
           in if shouldSplit
              then if splitMode options = ''overlap''
                   then map (\<lambda>(idx, seg).
                          extractAndRotate (pageName pageNum ''3'' (fromCharCode (97 + idx)))
                            (seg_x seg) (seg_y seg) (seg_w seg) (seg_h seg) landscapeRotation)
                        (enumerate 0 (calculateOverlapSegments width height))
                   else
                     let halfHeight = height div 2
                     in [extractAndRotate (pageName pageNum ''2'' ''a'')
                           0 0 width halfHeight landscapeRotation,
                         extractAndRotate (pageName pageNum ''2'' ''b'')
                           0 halfHeight width halfHeight landscapeRotation]
              else [extractAndRotate (pageName pageNum ''0'' ''spread'')
                      0 0 width height landscapeRotation])"

text \<open>
  \<^verbatim>\<open>processImage\<close> of \<^verbatim>\<open>converter.ts\<close> loads the image from its blob:
  \<^verbatim>\<open>
  img.onload = () => { ...; const pages = processLoadedImage(img, pageNum, options); resolve(pages) }
  img.onerror = () => { ...; console.error(`Failed to load image for page ${pageNum}`); resolve([]) }
  \<close>
  The blob is modelled by what loading it gives: the width and height of the image, or
  \<open>None\<close> for a blob that does not load.
\<close>

definition processImage ::
  "(int \<Rightarrow> int \<Rightarrow> Segment list) \<Rightarrow> (int \<times> int) option \<Rightarrow> nat \<Rightarrow> 'a ConversionOptions_scheme
     \<Rightarrow> ProcessedPage list" where
  "processImage calculateOverlapSegments imgBlob pageNum options =
     (case imgBlob of
        None \<Rightarrow> []
      | Some (imgWidth, imgHeight) \<Rightarrow>
          processLoadedImage calculateOverlapSegments imgWidth imgHeight pageNum options)"

text \<open>The rows of the cropped canvas that a processed page is drawn from.\<close>

definition rowsOf :: "ProcessedPage \<Rightarrow> int set" where
  "rowsOf p = {src_y p ..< src_y p + src_h p}"

section \<open>The cover page: \<^verbatim>\<open>moveCoverToFront\<close> and \<^verbatim>\<open>getPageProcessingOptions\<close>\<close>

text \<open>
  Modelled from the spec: \<^verbatim>\<open>BookMetadata\<close> and its table-of-contents entries are
  declared in \<^verbatim>\<open>metadata/types\<close>, which is not among the sources; the fields are the
  ones \<^verbatim>\<open>converter.ts\<close> reads (\<^verbatim>\<open>coverPage\<close>, \<^verbatim>\<open>coverImagePath\<close>, \<^verbatim>\<open>toc\<close>), an
  absent optional field being \<open>None\<close>.
\<close>

record TocEntry =
  title :: string
  startPage :: nat
  endPage :: nat

record BookMetadata =
  coverPage :: "number option"
  coverImagePath :: "string option"
  toc :: "TocEntry list"

text \<open>
  An entry of \<^verbatim>\<open>imageFiles\<close>: \<^verbatim>\<open>{ path, entry | data, originalPage }\<close>; the archive
  entry is the extension of the record.
\<close>

record ImageFile =
  path :: string
  originalPage :: nat

text \<open>\<^verbatim>\<open>Array.prototype.findIndex\<close>, with \<open>None\<close> for \<open>-1\<close>.\<close>

fun findIndex :: "('a \<Rightarrow> bool) \<Rightarrow> 'a list \<Rightarrow> nat option" where
  "findIndex P [] = None"
| "findIndex P (x # xs) = (if P x then Some 0 else map_option Suc (findIndex P xs))"

text \<open>
  A path is a list of characters with codes below 256, the Latin-1 range of the code
  units of a JavaScript string; a path with a character beyond it is outside the model.
  On this range \<^verbatim>\<open>toLowerCase\<close> maps the capital letters, \<^verbatim>\<open>A\<close> to \<^verbatim>\<open>Z\<close> (65 to 90) and
  the accented capitals 192 to 214 and 216 to 222, to the letter 32 above, and leaves
  every other character unchanged.
\<close>

definition toLowerChar :: "char \<Rightarrow> char" where
  "toLowerChar c =
     (let code = (of_char c :: nat)
      in if (65 \<le> code \<and> code \<le> 90) \<or> (192 \<le> code \<and> code \<le> 214)
            \<or> (216 \<le> code \<and> code \<le> 222)
         then char_of (code + 32) else c)"

text \<open>
  \<^verbatim>\<open>
  path.replace(/\\/g, '/').replace(/^\.\//, '').replace(/^\/+/, '').toLowerCase()
  \<close>
\<close>

definition normalizeArchivePath :: "string \<Rightarrow> string" where
  "normalizeArchivePath p =
     (let p1 = map (\<lambda>c. if c = CHR 0x5C then CHR ''/'' else c) p;
          p2 = (if take 2 p1 = ''./'' then drop 2 p1 else p1);
          p3 = dropWhile (\<lambda>c. c = CHR ''/'') p2
      in map toLowerChar p3)"

text \<open>
  \<^verbatim>\<open>
  const slashIndex = path.lastIndexOf('/')
  if (slashIndex < 0) return path
  return path.slice(slashIndex + 1)
  \<close>
\<close>

definition getBaseName :: "string \<Rightarrow> string" where
  "getBaseName p = (if CHR ''/'' \<in> set p then rev (takeWhile (\<lambda>c. c \<noteq> CHR ''/'') (rev p)) else p)"

text \<open>
  \<^verbatim>\<open>
  if (imageFiles.length < 2) return
  let coverIndex = -1
  if (Number.isInteger(metadata.coverPage) && (metadata.coverPage ?? 0) > 0) {
    coverIndex = imageFiles.findIndex(file => file.originalPage === metadata.coverPage)
  }
  if (coverIndex === -1 && metadata.coverImagePath) {
    const normalizedCoverPath = normalizeArchivePath(metadata.coverImagePath)
    coverIndex = imageFiles.findIndex(file =>
      normalizeArchivePath(file.path) === normalizedCoverPath)
    if (coverIndex === -1) {
      const coverBaseName = getBaseName(normalizedCoverPath)
      coverIndex = imageFiles.findIndex(file =>
        getBaseName(normalizeArchivePath(file.path)) === coverBaseName)
    }
  }
  if (coverIndex > 0) {
    const [coverImage] = imageFiles.splice(coverIndex, 1)
    imageFiles.unshift(coverImage)
  }
  \<close>
  The array is changed in place; the model returns the new array.
\<close>

definition coverIndexByPage :: "'a ImageFile_scheme list \<Rightarrow> 'b BookMetadata_scheme \<Rightarrow> nat option" where
  "coverIndexByPage imageFiles metadata =
     (case coverPage metadata of
        Some (Finite k) \<Rightarrow>
          if isInteger (Finite k) \<and> 0 < k
          then findIndex (\<lambda>file. real (originalPage file) = k) imageFiles
          else None
      | _ \<Rightarrow> None)"

definition coverIndexByPath :: "'a ImageFile_scheme list \<Rightarrow> string \<Rightarrow> nat option" where
  "coverIndexByPath imageFiles coverPath =
     (let normalizedCoverPath = normalizeArchivePath coverPath
      in case findIndex (\<lambda>file. normalizeArchivePath (path file) = normalizedCoverPath) imageFiles of
           Some i \<Rightarrow> Some i
         | None \<Rightarrow>
             let coverBaseName = getBaseName normalizedCoverPath
             in findIndex (\<lambda>file. getBaseName (normalizeArchivePath (path file)) = coverBaseName)
                  imageFiles)"

definition moveCoverToFront ::
  "'a ImageFile_scheme list \<Rightarrow> 'b BookMetadata_scheme \<Rightarrow> 'a ImageFile_scheme list" where
  "moveCoverToFront imageFiles metadata =
     (if length imageFiles < 2 then imageFiles
      else
        let byPage = coverIndexByPage imageFiles metadata;
            coverIndex =
              (case (byPage, coverImagePath metadata) of
                 (None, Some coverPath) \<Rightarrow>
                   if coverPath \<noteq> [] then coverIndexByPath imageFiles coverPath else None
               | _ \<Rightarrow> byPage)
        in case coverIndex of
             Some i \<Rightarrow>
               if 0 < i
               then (imageFiles ! i) # (take i imageFiles @ drop (Suc i) imageFiles)
               else imageFiles
           | None \<Rightarrow> imageFiles)"

text \<open>
  \<^verbatim>\<open>
  // Crosspoint uses XTC page 0 as the home preview, so keep cover full-size.
  if (!isCoverPage || baseOptions.splitMode === 'nosplit') { return baseOptions }
  return { ...baseOptions, splitMode: 'nosplit' }
  \<close>
\<close>

definition getPageProcessingOptions ::
  "'a ConversionOptions_scheme \<Rightarrow> bool \<Rightarrow> 'a ConversionOptions_scheme" where
  "getPageProcessingOptions baseOptions isCoverPage =
     (if \<not> isCoverPage \<or> splitMode baseOptions = ''nosplit'' then baseOptions
      else baseOptions\<lparr> splitMode := ''nosplit'' \<rparr>)"

text \<open>
  The \<^verbatim>\<open>getPageOptions\<close> argument that \<^verbatim>\<open>convertCbzToXtc\<close> and \<^verbatim>\<open>convertCbrToXtc\<close>
  pass to \<^verbatim>\<open>processArchiveSourcePages\<close>:
  \<^verbatim>\<open>(index) => getPageProcessingOptions(options, index === 0)\<close>.
\<close>

definition getPageOptions :: "'a ConversionOptions_scheme \<Rightarrow> nat \<Rightarrow> 'a ConversionOptions_scheme" where
  "getPageOptions options index = getPageProcessingOptions options (index = 0)"

section \<open>Collecting the results: the end of \<^verbatim>\<open>processArchiveSourcePages\<close>\<close>

type_synonym byte = "8 word"

text \<open>\<^verbatim>\<open>EncodedPage\<close>: \<^verbatim>\<open>{ name, xtg }\<close>, the \<^verbatim>\<open>ArrayBuffer\<close> as its list of bytes.\<close>

record EncodedPage = Named +
  xtg :: "byte list"

text \<open>
  Modelled from the spec: \<^verbatim>\<open>PageMappingContext\<close> (\<^verbatim>\<open>page-mapping.ts\<close> is not among the
  sources) is the ordered list of (original page number, output count) pairs, and
  \<^verbatim>\<open>addOriginalPage\<close> appends one pair. The list is the log of the calls made.
\<close>

type_synonym PageMappingContext = "(nat \<times> nat) list"

definition newPageMappingContext :: PageMappingContext where
  "newPageMappingContext = []"

definition addOriginalPage :: "PageMappingContext \<Rightarrow> nat \<Rightarrow> nat \<Rightarrow> PageMappingContext" where
  "addOriginalPage ctx originalPageNumber outputCount = ctx @ [(originalPageNumber, outputCount)]"

text \<open>
  \<^verbatim>\<open>pageResultsByIndex\<close> is created by \<^verbatim>\<open>new Array(totalPages)\<close>, every slot empty, and
  filled by the assignments \<^verbatim>\<open>pageResultsByIndex[index] = pageResults\<close>: a map from
  indices to page lists. \<open>recordResults\<close> applies a sequence of such assignments, in the
  order in which the pages completed.
\<close>

type_synonym PageResults = "nat \<rightharpoonup> EncodedPage list"

definition assignResult :: "nat \<times> EncodedPage list \<Rightarrow> PageResults \<Rightarrow> PageResults" where
  "assignResult completion arr = arr(fst completion \<mapsto> snd completion)"

definition recordResults :: "(nat \<times> EncodedPage list) list \<Rightarrow> PageResults" where
  "recordResults completions = fold assignResult completions Map.empty"

text \<open>
  \<^verbatim>\<open>
  const mappingCtx = new PageMappingContext()
  const encodedPages: EncodedPage[] = []
  for (let i = 0; i < totalPages; i++) {
    const pages = pageResultsByIndex[i] || []
    mappingCtx.addOriginalPage(getOriginalPage(i), pages.length)
    encodedPages.push(...pages)
  }
  \<close>
  One iteration of the loop, and the loop over \<open>i = 0, ..., totalPages - 1\<close>.
\<close>

definition collectStep ::
  "PageResults \<Rightarrow> (nat \<Rightarrow> nat) \<Rightarrow> nat \<Rightarrow> PageMappingContext \<times> EncodedPage list
     \<Rightarrow> PageMappingContext \<times> EncodedPage list" where
  "collectStep pageResultsByIndex getOriginalPage i acc =
     (let pages = (case pageResultsByIndex i of None \<Rightarrow> [] | Some ps \<Rightarrow> ps)
      in (addOriginalPage (fst acc) (getOriginalPage i) (length pages), snd acc @ pages))"

definition collectResults ::
  "nat \<Rightarrow> PageResults \<Rightarrow> (nat \<Rightarrow> nat) \<Rightarrow> PageMappingContext \<times> EncodedPage list" where
  "collectResults totalPages pageResultsByIndex getOriginalPage =
     fold (collectStep pageResultsByIndex getOriginalPage) [0 ..< totalPages]
       (newPageMappingContext, [])"

text \<open>The output count that the loop passes for index \<open>i\<close>.\<close>

definition outputCount :: "PageResults \<Rightarrow> nat \<Rightarrow> nat" where
  "outputCount pageResultsByIndex i =
     (case pageResultsByIndex i of None \<Rightarrow> 0 | Some ps \<Rightarrow> length ps)"

section \<open>Little-endian fields of a \<^verbatim>\<open>DataView\<close>\<close>

text \<open>
  \<^verbatim>\<open>view.setUint16(offset, value, true)\<close> and \<^verbatim>\<open>view.setUint32(offset, value, true)\<close>
  store the low 2 or 4 bytes of the value, least significant first; a value too large for
  the field wraps around. \<open>leBytes k value\<close> is the list of the \<open>k\<close> bytes stored.
\<close>

fun leBytes :: "nat \<Rightarrow> nat \<Rightarrow> byte list" where
  "leBytes 0 v = []"
| "leBytes (Suc k) v = of_nat (v mod 256) # leBytes k (v div 256)"

definition setUint8 :: "nat \<Rightarrow> byte list" where
  "setUint8 v = leBytes 1 v"

definition setUint16 :: "nat \<Rightarrow> byte list" where
  "setUint16 v = leBytes 2 v"

definition setUint32 :: "nat \<Rightarrow> byte list" where
  "setUint32 v = leBytes 4 v"

text \<open>
  \<^verbatim>\<open>
  function setBigUint64(view, offset, value) {
    const low = Number(value & 0xFFFFFFFFn);
    const high = Number(value >> 32n);
    view.setUint32(offset, low, true);
    view.setUint32(offset + 4, high, true);
  }
  \<close>
\<close>

definition setBigUint64 :: "nat \<Rightarrow> byte list" where
  "setBigUint64 v = (let low = v mod 2 ^ 32; high = v div 2 ^ 32 in setUint32 low @ setUint32 high)"

text \<open>
  Reading a field back, as \<^verbatim>\<open>getUint16\<close>, \<^verbatim>\<open>getUint32\<close> and \<^verbatim>\<open>getBigUint64\<close> of a
  \<^verbatim>\<open>DataView\<close> with \<^verbatim>\<open>littleEndian = true\<close> do: the value of the bytes at an offset.
\<close>

fun leNat :: "byte list \<Rightarrow> nat" where
  "leNat [] = 0"
| "leNat (b # bs) = unat b + 256 * leNat bs"

definition getUint16 :: "byte list \<Rightarrow> nat \<Rightarrow> nat" where
  "getUint16 buf offset = leNat (take 2 (drop offset buf))"

definition getUint32 :: "byte list \<Rightarrow> nat \<Rightarrow> nat" where
  "getUint32 buf offset = leNat (take 4 (drop offset buf))"

definition getBigUint64 :: "byte list \<Rightarrow> nat \<Rightarrow> nat" where
  "getBigUint64 buf offset = leNat (take 8 (drop offset buf))"

section \<open>The page codec: \<^verbatim>\<open>imageDataToXtg\<close>\<close>

text \<open>
  \<^verbatim>\<open>ImageData\<close>: \<^verbatim>\<open>width\<close>, \<^verbatim>\<open>height\<close> and the RGBA bytes \<^verbatim>\<open>data\<close>, four for each
  pixel, row by row.
\<close>

record ImageData =
  width :: nat
  height :: nat
  data :: "byte list"

text \<open>
  \<^verbatim>\<open>
  const idx = (y * w + x) * 4
  const bit = data[idx] >= 128 ? 1 : 0
  const byteIndex = y * rowBytes + Math.floor(x / 8)
  const bitIndex = 7 - (x % 8)
  if (bit) { pixelData[byteIndex] |= 1 << bitIndex }
  \<close>
  A read beyond the end of \<^verbatim>\<open>data\<close> gives \<^verbatim>\<open>undefined\<close>, which is not \<^verbatim>\<open>>= 128\<close>; a
  write beyond the end of a typed array is ignored, as \<open>list_update\<close> does.
\<close>

definition packPixel :: "ImageData \<Rightarrow> nat \<Rightarrow> nat \<Rightarrow> nat \<Rightarrow> byte list \<Rightarrow> byte list" where
  "packPixel imageData rowBytes y x pixelData =
     (let idx = (y * width imageData + x) * 4;
          bit = (idx < length (data imageData) \<and> 128 \<le> data imageData ! idx);
          byteIndex = y * rowBytes + x div 8;
          bitIndex = 7 - x mod 8
      in if bit
         then pixelData[byteIndex := pixelData ! byteIndex OR push_bit bitIndex 1]
         else pixelData)"

text \<open>
  \<^verbatim>\<open>
  const rowBytes = Math.ceil(w / 8)
  const pixelData = new Uint8Array(rowBytes * h)
  for (let y = 0; y < h; y++) { for (let x = 0; x < w; x++) { ... } }
  \<close>
\<close>

definition packRow :: "ImageData \<Rightarrow> nat \<Rightarrow> nat \<Rightarrow> byte list \<Rightarrow> byte list" where
  "packRow imageData rowBytes y pixelData =
     fold (packPixel imageData rowBytes y) [0 ..< width imageData] pixelData"

definition packPixels :: "ImageData \<Rightarrow> byte list" where
  "packPixels imageData =
     (let w = width imageData; h = height imageData;
          rowBytes = (w + 7) div 8
      in fold (packRow imageData rowBytes) [0 ..< h] (replicate (rowBytes * h) 0))"

text \<open>
  \<^verbatim>\<open>
  const md5digest = new Uint8Array(8)
  for (let i = 0; i < Math.min(8, pixelData.length); i++) { md5digest[i] = pixelData[i] }
  \<close>
\<close>

definition md5digest :: "byte list \<Rightarrow> byte list" where
  "md5digest pixelData = take 8 pixelData @ replicate (8 - length pixelData) 0"

text \<open>
  \<^verbatim>\<open>
  const headerSize = 22
  const totalSize = headerSize + pixelData.length
  uint8[0] = 0x58; uint8[1] = 0x54; uint8[2] = 0x47; uint8[3] = 0x00
  view.setUint16(4, w, true)
  view.setUint16(6, h, true)
  view.setUint8(8, 0)
  view.setUint8(9, 0)
  view.setUint32(10, pixelData.length, true)
  uint8.set(md5digest, 14)
  uint8.set(pixelData, headerSize)
  \<close>
  The writes fill the buffer from byte 0 to its end without gaps or overlaps, so the
  buffer is the concatenation of what they store.
\<close>

definition imageDataToXtg :: "ImageData \<Rightarrow> byte list" where
  "imageDataToXtg imageData =
     (let w = width imageData; h = height imageData;
          pixelData = packPixels imageData
      in [0x58, 0x54, 0x47, 0x00]
         @ setUint16 w @ setUint16 h
         @ setUint8 0 @ setUint8 0
         @ setUint32 (length pixelData)
         @ md5digest pixelData
         @ pixelData)"

section \<open>The container: \<^verbatim>\<open>buildXtc\<close>\<close>

text \<open>\<^verbatim>\<open>canvas-utils.js\<close>: the target dimensions for the XTEink X4.\<close>

definition TARGET_WIDTH :: nat where
  "TARGET_WIDTH = 480"

definition TARGET_HEIGHT :: nat where
  "TARGET_HEIGHT = 800"

text \<open>
  A canvas: its size and the RGBA value of each of its pixels.
  \<^verbatim>\<open>getContext('2d').getImageData(0, 0, sw, sh)\<close> copies the rectangle at the origin;
  pixels outside the canvas are transparent black.
\<close>

record Canvas =
  canvasWidth :: nat
  canvasHeight :: nat
  rgba :: "nat \<Rightarrow> nat \<Rightarrow> byte \<times> byte \<times> byte \<times> byte"

definition pixelBytes :: "Canvas \<Rightarrow> nat \<Rightarrow> nat \<Rightarrow> byte list" where
  "pixelBytes c y x =
     (if x < canvasWidth c \<and> y < canvasHeight c
      then (case rgba c x y of (r, g, b, a) \<Rightarrow> [r, g, b, a])
      else [0, 0, 0, 0])"

definition getImageData :: "Canvas \<Rightarrow> nat \<Rightarrow> nat \<Rightarrow> ImageData" where
  "getImageData c sw sh =
     \<lparr> width = sw, height = sh,
       data = concat (map (\<lambda>y. concat (map (pixelBytes c y) [0 ..< sw])) [0 ..< sh]) \<rparr>"

text \<open>A page of \<^verbatim>\<open>app.js\<close>: \<^verbatim>\<open>{ name, canvas }\<close>.\<close>

record CanvasPage = Named +
  canvas :: Canvas

text \<open>
  The index table of \<^verbatim>\<open>buildXtc\<close>:
  \<^verbatim>\<open>
  let relOffset = dataOffset;
  for (let i = 0; i < pageCount; i++) {
    const blob = xtgBlobs[i];
    const entryOffset = indexOffset + i * indexEntrySize;
    setBigUint64(view, entryOffset, BigInt(relOffset));
    view.setUint32(entryOffset + 8, blob.byteLength, true);
    view.setUint16(entryOffset + 12, TARGET_WIDTH, true);
    view.setUint16(entryOffset + 14, TARGET_HEIGHT, true);
    relOffset += blob.byteLength;
  }
  \<close>
\<close>

fun indexTable :: "nat \<Rightarrow> byte list list \<Rightarrow> byte list" where
  "indexTable relOffset [] = []"
| "indexTable relOffset (blob # blobs) =
     setBigUint64 relOffset @ setUint32 (length blob)
     @ setUint16 TARGET_WIDTH @ setUint16 TARGET_HEIGHT
     @ indexTable (relOffset + length blob) blobs"

text \<open>
  \<^verbatim>\<open>
  const pageCount = xtgBlobs.length;
  const headerSize = 48;
  const indexEntrySize = 16;
  const indexOffset = headerSize;
  const dataOffset = indexOffset + pageCount * indexEntrySize;
  let totalSize = dataOffset;
  for (const blob of xtgBlobs) { totalSize += blob.byteLength; }
  uint8[0] = 0x58; uint8[1] = 0x54; uint8[2] = 0x43; uint8[3] = 0x00;
  view.setUint16(4, 1, true);
  view.setUint16(6, pageCount, true);
  view.setUint8(8, 0); view.setUint8(9, 0); view.setUint8(10, 0); view.setUint8(11, 0);
  view.setUint32(12, 0, true);
  setBigUint64(view, 16, 0n);
  setBigUint64(view, 24, BigInt(indexOffset));
  setBigUint64(view, 32, BigInt(dataOffset));
  setBigUint64(view, 40, 0n);
  ... the index table ...
  let writeOffset = dataOffset;
  for (const blob of xtgBlobs) {
    uint8.set(new Uint8Array(blob), writeOffset);
    writeOffset += blob.byteLength;
  }
  \<close>
  The header is 48 bytes, the table 16 bytes for each page, and the blobs follow one another
  from \<open>dataOffset\<close>: the buffer of \<open>totalSize\<close> bytes is the concatenation.
\<close>

definition xtcHeader :: "nat \<Rightarrow> nat \<Rightarrow> nat \<Rightarrow> byte list" where
  "xtcHeader pageCount indexOffset dataOffset =
     [0x58, 0x54, 0x43, 0x00]
     @ setUint16 1 @ setUint16 pageCount
     @ setUint8 0 @ setUint8 0 @ setUint8 0 @ setUint8 0
     @ setUint32 0
     @ setBigUint64 0 @ setBigUint64 indexOffset @ setBigUint64 dataOffset @ setBigUint64 0"

definition buildXtcBuffer :: "byte list list \<Rightarrow> byte list" where
  "buildXtcBuffer xtgBlobs =
     (let pageCount = length xtgBlobs;
          headerSize = 48;
          indexEntrySize = 16;
          indexOffset = headerSize;
          dataOffset = indexOffset + pageCount * indexEntrySize
      in xtcHeader pageCount indexOffset dataOffset
         @ indexTable dataOffset xtgBlobs
         @ concat xtgBlobs)"

text \<open>
  \<^verbatim>\<open>
  const xtgBlobs = pages.map(page =>
    imageDataToXtg(page.canvas.getContext('2d').getImageData(0, 0, TARGET_WIDTH, TARGET_HEIGHT)));
  \<close>
\<close>

definition xtgBlobsOf :: "'a CanvasPage_scheme list \<Rightarrow> byte list list" where
  "xtgBlobsOf pages =
     map (\<lambda>page. imageDataToXtg (getImageData (canvas page) TARGET_WIDTH TARGET_HEIGHT)) pages"

definition buildXtc :: "'a CanvasPage_scheme list \<Rightarrow> byte list" where
  "buildXtc pages = buildXtcBuffer (xtgBlobsOf pages)"

text \<open>The index entry of page \<open>i\<close>, read back from a container.\<close>

definition entryOffset :: "byte list \<Rightarrow> nat \<Rightarrow> nat" where
  "entryOffset buf i = getBigUint64 buf (getBigUint64 buf 24 + i * 16)"

definition entrySize :: "byte list \<Rightarrow> nat \<Rightarrow> nat" where
  "entrySize buf i = getUint32 buf (getBigUint64 buf 24 + i * 16 + 8)"

section \<open>The final page order: \<^verbatim>\<open>finalizeConversionResult\<close>\<close>

text \<open>
  \<^verbatim>\<open>encodedPages.sort((a, b) => a.name.localeCompare(b.name))\<close>.
  \<^verbatim>\<open>Array.prototype.sort\<close> is stable. \<^verbatim>\<open>localeCompare\<close> is a function of the platform
  (the collation of ICU); it is modelled as the lexicographic order of the character
  codes, the order the spec names, which is the order of \<open><\<close> on \<open>string\<close>. The two
  orders agree on two names that first differ at two digits or at two of the lower-case
  letters \<^verbatim>\<open>a\<close> to \<^verbatim>\<open>z\<close>: this is so for the names of one conversion when the page
  numbers have four digits (up to 9999) and a page has at most 26 overlap segments. They
  do not agree where \<^verbatim>\<open>_\<close> or \<^verbatim>\<open>{\<close> meets a digit or a letter (the collation puts both
  before the digits), that is for a page number of five digits or a 27th segment; the
  statements about the order carry the two bounds as hypotheses.
\<close>

definition sortByName :: "'a Named_scheme list \<Rightarrow> 'a Named_scheme list" where
  "sortByName pages = sort_key name pages"

text \<open>\<^verbatim>\<open>ConversionResult\<close> of \<^verbatim>\<open>conversion/types.ts\<close>; the fields carry the prefix \<open>result\<close>.\<close>

record ConversionResult =
  resultName :: string
  resultData :: "byte list"
  resultSize :: nat
  resultPageCount :: nat
  resultPageImages :: "string list"
  resultPreviewMode :: string

text \<open>
  \<^verbatim>\<open>
  encodedPages.sort((a, b) => a.name.localeCompare(b.name))
  if (metadata.toc.length > 0) { metadata.toc = adjustTocForMapping(metadata.toc, mappingCtx) }
  const xtcData = await buildXtcFromXtgPages(encodedPages.map((page) => page.xtg), { metadata })
  return { name: outputName, data: xtcData, size: xtcData.byteLength,
           pageCount: encodedPages.length, pageImages: sampledPreviews, previewMode: 'sparse' }
  \<close>
  \<^verbatim>\<open>buildXtcFromXtgPages\<close> (\<^verbatim>\<open>xtc-format\<close>) and \<^verbatim>\<open>adjustTocForMapping\<close>
  (\<^verbatim>\<open>page-mapping\<close>) are not among the sources; they are parameters of the model.
\<close>

definition finalizeConversionResult ::
  "(byte list list \<Rightarrow> BookMetadata \<Rightarrow> byte list)
     \<Rightarrow> (TocEntry list \<Rightarrow> PageMappingContext \<Rightarrow> TocEntry list)
     \<Rightarrow> string \<Rightarrow> EncodedPage list \<Rightarrow> PageMappingContext \<Rightarrow> BookMetadata \<Rightarrow> string list
     \<Rightarrow> ConversionResult" where
  "finalizeConversionResult buildXtcFromXtgPages adjustTocForMapping
     outputName encodedPages mappingCtx metadata sampledPreviews =
     (let sortedPages = sortByName encodedPages;
          metadata' = (if toc metadata \<noteq> []
                       then metadata\<lparr> toc := adjustTocForMapping (toc metadata) mappingCtx \<rparr>
                       else metadata);
          xtcData = buildXtcFromXtgPages (map xtg sortedPages) metadata'
      in \<lparr> resultName = outputName, resultData = xtcData, resultSize = length xtcData,
           resultPageCount = length sortedPages, resultPageImages = sampledPreviews,
           resultPreviewMode = ''sparse'' \<rparr>)"

text \<open>
  The pages of an archive conversion (\<^verbatim>\<open>convertCbzToXtc\<close>, \<^verbatim>\<open>convertCbrToXtc\<close>), in the
  order of the container, when the pages are processed in-process. For each index,
  \<^verbatim>\<open>processArchiveSourcePages\<close> stores
  \<^verbatim>\<open>
  const pageOptions = getPageOptions(index)
  const pageNum = index + 1
  const pages = await processImage(imgBlob, pageNum, pageOptions)
  pageResultsByIndex[index] = pages.map(encodeCanvasPage)
  \<close>
  the loop after the join appends the results in the order of the index, and
  \<^verbatim>\<open>finalizeConversionResult\<close> sorts the pages by name. \<^verbatim>\<open>encodeCanvasPage\<close> keeps the
  name of a page and encodes its canvas; the pages are kept here as processed pages.
  A worker processes a page with the same options, page number, branches and names
  (\<^verbatim>\<open>processBitmap\<close>).
\<close>

definition convertArchivePages ::
  "(int \<Rightarrow> int \<Rightarrow> Segment list) \<Rightarrow> (int \<times> int) option list \<Rightarrow> 'a ConversionOptions_scheme
     \<Rightarrow> ProcessedPage list" where
  "convertArchivePages calculateOverlapSegments imgBlobs options =
     sortByName
       (concat (map (\<lambda>index. processImage calculateOverlapSegments (imgBlobs ! index) (index + 1)
                       (getPageOptions options index))
          [0 ..< length imgBlobs]))"

text \<open>The zero-padded decimal digits of a number, for a fixed number of digits.\<close>

fun fixedDigits :: "nat \<Rightarrow> nat \<Rightarrow> string" where
  "fixedDigits 0 n = []"
| "fixedDigits (Suc k) n = fixedDigits k (n div 10) @ [digitChar (n mod 10)]"

section \<open>The worker pool: \<^verbatim>\<open>ConvertWorkerPool\<close>\<close>

text \<open>\<^verbatim>\<open>WorkerProcessedPage\<close>: \<^verbatim>\<open>{ name, xtg, previewJpeg? }\<close>.\<close>

record WorkerProcessedPage = EncodedPage +
  previewJpeg :: "byte list option"

text \<open>
  The promise that \<^verbatim>\<open>processPage\<close> returns for a job is settled through the job's
  \<^verbatim>\<open>resolve\<close> and \<^verbatim>\<open>reject\<close> callbacks. The pool state records the outcome of each
  job's promise by job id; a job with no outcome yet is pending. Settling a promise that
  is already settled has no effect.
\<close>

datatype Settlement = Resolved "WorkerProcessedPage list" | Rejected string

type_synonym Promises = "nat \<rightharpoonup> Settlement"

definition settle :: "nat \<Rightarrow> Settlement \<Rightarrow> Promises \<Rightarrow> Promises" where
  "settle jid outcome ps = (case ps jid of None \<Rightarrow> ps(jid \<mapsto> outcome) | Some previous \<Rightarrow> ps)"

text \<open>
  \<^verbatim>\<open>QueueJob\<close>: the field \<^verbatim>\<open>id\<close> is \<open>jobId\<close>; \<^verbatim>\<open>blob\<close> and \<^verbatim>\<open>options\<close> are passed on
  to the worker unread and are left out, and the two callbacks are the promise above.
\<close>

record QueueJob =
  jobId :: nat
  jobPageNum :: nat
  includePreview :: bool

text \<open>\<^verbatim>\<open>WorkerSlot\<close>; \<open>terminated\<close> records \<^verbatim>\<open>slot.worker.terminate()\<close>.\<close>

record WorkerSlot =
  busy :: bool
  currentJob :: "QueueJob option"
  terminated :: bool

record ConvertWorkerPool =
  slots :: "WorkerSlot list"
  queue :: "QueueJob list"
  nextJobId :: nat
  isDestroyed :: bool
  promises :: Promises

text \<open>\<^verbatim>\<open>WorkerResponse\<close>: \<^verbatim>\<open>{ jobId, pages?, error? }\<close>.\<close>

record WorkerResponse =
  responseJobId :: nat
  responsePages :: "WorkerProcessedPage list option"
  responseError :: "string option"

text \<open>The constructor: \<open>poolSize\<close> idle workers, an empty queue, job ids from 1.\<close>

definition newConvertWorkerPool :: "nat \<Rightarrow> ConvertWorkerPool" where
  "newConvertWorkerPool poolSize =
     \<lparr> slots = replicate poolSize \<lparr> busy = False, currentJob = None, terminated = False \<rparr>,
       queue = [], nextJobId = 1, isDestroyed = False, promises = Map.empty \<rparr>"

text \<open>
  \<^verbatim>\<open>
  private pump(): void {
    if (this.isDestroyed) return
    for (const slot of this.slots) {
      if (slot.busy) continue
      const job = this.queue.shift()
      if (!job) return
      slot.busy = true
      slot.currentJob = job
      slot.worker.postMessage({ jobId: job.id, ... })
    }
  }
  \<close>
\<close>

fun pumpSlots :: "WorkerSlot list \<Rightarrow> QueueJob list \<Rightarrow> WorkerSlot list \<times> QueueJob list" where
  "pumpSlots [] q = ([], q)"
| "pumpSlots (slot # rest) q =
     (if busy slot
      then (case pumpSlots rest q of (rest', q') \<Rightarrow> (slot # rest', q'))
      else (case q of
              [] \<Rightarrow> (slot # rest, [])
            | job # q' \<Rightarrow>
                (case pumpSlots rest q' of
                   (rest', q'') \<Rightarrow> (slot\<lparr> busy := True, currentJob := Some job \<rparr> # rest', q''))))"

definition pump :: "ConvertWorkerPool \<Rightarrow> ConvertWorkerPool" where
  "pump p =
     (if isDestroyed p then p
      else (case pumpSlots (slots p) (queue p) of (ss, q) \<Rightarrow> p\<lparr> slots := ss, queue := q \<rparr>))"

text \<open>
  \<^verbatim>\<open>
  processPage(pageNum, blob, options, includePreview) {
    if (this.isDestroyed) { return Promise.reject(new Error('Worker pool is destroyed')) }
    return new Promise((resolve, reject) => {
      const job = { id: this.nextJobId++, pageNum, blob, options, includePreview, resolve, reject }
      this.queue.push(job)
      this.pump()
    })
  }
  \<close>
  The result is the promise, either rejected at once or that of the new job, and the pool.
\<close>

datatype PagePromise = RejectedPromise string | JobPromise nat

definition processPage ::
  "nat \<Rightarrow> bool \<Rightarrow> ConvertWorkerPool \<Rightarrow> PagePromise \<times> ConvertWorkerPool" where
  "processPage pageNum preview p =
     (if isDestroyed p then (RejectedPromise ''Worker pool is destroyed'', p)
      else
        let job = \<lparr> jobId = nextJobId p, jobPageNum = pageNum, includePreview = preview \<rparr>
        in (JobPromise (jobId job),
            pump (p\<lparr> nextJobId := nextJobId p + 1, queue := queue p @ [job] \<rparr>)))"

text \<open>
  \<^verbatim>\<open>
  destroy(): void {
    if (this.isDestroyed) return
    this.isDestroyed = true
    for (const slot of this.slots) {
      if (slot.currentJob) {
        slot.currentJob.reject(new Error('Worker pool destroyed'))
        slot.currentJob = undefined
      }
      slot.worker.terminate()
    }
    while (this.queue.length > 0) {
      const job = this.queue.shift()!
      job.reject(new Error('Worker pool destroyed'))
    }
  }
  \<close>
\<close>

fun destroySlots :: "WorkerSlot list \<Rightarrow> Promises \<Rightarrow> WorkerSlot list \<times> Promises" where
  "destroySlots [] ps = ([], ps)"
| "destroySlots (slot # rest) ps =
     (case currentJob slot of
        Some job \<Rightarrow>
          (case destroySlots rest (settle (jobId job) (Rejected ''Worker pool destroyed'') ps) of
             (rest', ps') \<Rightarrow> (slot\<lparr> currentJob := None, terminated := True \<rparr> # rest', ps'))
      | None \<Rightarrow>
          (case destroySlots rest ps of
             (rest', ps') \<Rightarrow> (slot\<lparr> terminated := True \<rparr> # rest', ps')))"

fun drainQueue :: "QueueJob list \<Rightarrow> Promises \<Rightarrow> Promises" where
  "drainQueue [] ps = ps"
| "drainQueue (job # q) ps =
     drainQueue q (settle (jobId job) (Rejected ''Worker pool destroyed'') ps)"

definition destroy :: "ConvertWorkerPool \<Rightarrow> ConvertWorkerPool" where
  "destroy p =
     (if isDestroyed p then p
      else (case destroySlots (slots p) (promises p) of
              (ss, ps) \<Rightarrow>
                p\<lparr> isDestroyed := True, slots := ss, queue := [],
                   promises := drainQueue (queue p) ps \<rparr>))"

text \<open>
  \<^verbatim>\<open>
  worker.onmessage = (event) => {
    const message = event.data
    const job = slot.currentJob
    if (!job || job.id !== message.jobId) { return }
    slot.busy = false
    slot.currentJob = undefined
    if (message.error) { job.reject(new Error(message.error)) }
    else { job.resolve(message.pages || []) }
    this.pump()
  }
  \<close>
  for the worker of slot \<open>i\<close>; an empty error string counts as no error.
\<close>

definition onmessage :: "nat \<Rightarrow> WorkerResponse \<Rightarrow> ConvertWorkerPool \<Rightarrow> ConvertWorkerPool" where
  "onmessage i message p =
     (if length (slots p) \<le> i then p
      else
        case currentJob (slots p ! i) of
          None \<Rightarrow> p
        | Some job \<Rightarrow>
            if jobId job \<noteq> responseJobId message then p
            else
              let freed = (slots p)[i := (slots p ! i)\<lparr> busy := False, currentJob := None \<rparr>];
                  outcome =
                    (case responseError message of
                       Some (c # cs) \<Rightarrow> Rejected (c # cs)
                     | _ \<Rightarrow> Resolved (case responsePages message of None \<Rightarrow> [] | Some pages \<Rightarrow> pages))
              in pump (p\<lparr> slots := freed, promises := settle (jobId job) outcome (promises p) \<rparr>))"

text \<open>
  \<^verbatim>\<open>
  worker.onerror = (event) => {
    const job = slot.currentJob
    slot.busy = false
    slot.currentJob = undefined
    if (job) { job.reject(new Error(event.message || 'Page worker crashed')) }
    this.pump()
  }
  \<close>
\<close>

definition onerror :: "nat \<Rightarrow> string \<Rightarrow> ConvertWorkerPool \<Rightarrow> ConvertWorkerPool" where
  "onerror i eventMessage p =
     (if length (slots p) \<le> i then p
      else
        let freed = (slots p)[i := (slots p ! i)\<lparr> busy := False, currentJob := None \<rparr>];
            reason = (if eventMessage = [] then ''Page worker crashed'' else eventMessage);
            ps = (case currentJob (slots p ! i) of
                    None \<Rightarrow> promises p
                  | Some job \<Rightarrow> settle (jobId job) (Rejected reason) (promises p))
        in pump (p\<lparr> slots := freed, promises := ps \<rparr>))"

text \<open>
  The states of a pool: those the constructor gives and those that calls of
  \<^verbatim>\<open>processPage\<close> and \<^verbatim>\<open>destroy\<close> and the events of the workers lead to.
\<close>

inductive reachablePool :: "ConvertWorkerPool \<Rightarrow> bool" where
  created: "reachablePool (newConvertWorkerPool poolSize)"
| submitted: "reachablePool p \<Longrightarrow> reachablePool (snd (processPage pageNum preview p))"
| answered: "reachablePool p \<Longrightarrow> reachablePool (onmessage i message p)"
| crashed: "reachablePool p \<Longrightarrow> reachablePool (onerror i eventMessage p)"
| destroyed: "reachablePool p \<Longrightarrow> reachablePool (destroy p)"

text \<open>The jobs a pool holds: the queued ones and the ones in flight on a worker.\<close>

definition inFlight :: "WorkerSlot list \<Rightarrow> QueueJob set" where
  "inFlight ss = {job. \<exists>slot\<in>set ss. currentJob slot = Some job}"

definition heldJobs :: "ConvertWorkerPool \<Rightarrow> QueueJob set" where
  "heldJobs p = set (queue p) \<union> inFlight (slots p)"

text \<open>The promises that \<^verbatim>\<open>processPage\<close> created and that are not yet settled.\<close>

definition pendingIds :: "ConvertWorkerPool \<Rightarrow> nat set" where
  "pendingIds p = {jid. 1 \<le> jid \<and> jid < nextJobId p \<and> promises p jid = None}"

section \<open>Processing the pages: the slots of \<^verbatim>\<open>processArchiveSourcePages\<close>\<close>

text \<open>
  \<^verbatim>\<open>processArchiveSourcePages\<close> starts \<^verbatim>\<open>concurrency\<close> copies of the asynchronous function
  \<^verbatim>\<open>runSlot\<close> and joins them with \<^verbatim>\<open>Promise.all\<close>. JavaScript runs one of them at a
  time; a slot gives up control only at an \<^verbatim>\<open>await\<close>, and continues when the awaited
  promise has settled. The state of a slot is the \<^verbatim>\<open>await\<close> it stands at:
  \<^item> \<open>NotStarted\<close>: \<^verbatim>\<open>runSlot(slotIndex)\<close> has not been called yet;
  \<^item> \<open>AwaitBlob index\<close>: at \<^verbatim>\<open>await getBlob(index)\<close>;
  \<^item> \<open>AwaitWorker index promise\<close>: at \<^verbatim>\<open>await pool.processPage(...)\<close>;
  \<^item> \<open>AwaitProcessImage index\<close>: at \<^verbatim>\<open>await processImage(imgBlob, pageNum, pageOptions)\<close>,
    the in-process path;
  \<^item> \<open>Returned\<close>: the slot has returned.
  Progress previews are not modelled (\<^verbatim>\<open>showProgressPreview\<close> is taken to be false, so
  \<^verbatim>\<open>includePreview\<close> is false), and \<^verbatim>\<open>getBlob\<close>, the archive's own function, is taken
  to fulfil its promise. \<^verbatim>\<open>processImage\<close> never rejects: it resolves \<^verbatim>\<open>[]\<close> when the
  image does not load.
\<close>

datatype SlotState =
    NotStarted
  | AwaitBlob nat
  | AwaitWorker nat PagePromise
  | AwaitProcessImage nat
  | Returned

text \<open>
  The variables of \<^verbatim>\<open>processArchiveSourcePages\<close> that the slots share. The variable
  \<^verbatim>\<open>pool\<close> is a reference: \<open>poolObject\<close> is the pool it was created with, which the
  promises of its jobs belong to, and \<open>pool\<close> tells whether the variable still refers
  to it (\<open>False\<close> for \<^verbatim>\<open>null\<close>). \<open>assigned\<close> is the log of the assignments
  \<^verbatim>\<open>pageResultsByIndex[index] = pageResults\<close>, in the order they were made.
\<close>

record Run =
  totalPages :: nat
  poolObject :: ConvertWorkerPool
  pool :: bool
  workerDisabled :: bool
  completed :: nat
  nextIndex :: nat
  pageResultsByIndex :: PageResults
  slotStates :: "SlotState list"
  assigned :: "nat list"


definition setSlot :: "nat \<Rightarrow> SlotState \<Rightarrow> Run \<Rightarrow> Run" where
  "setSlot slotIndex st r = r\<lparr> slotStates := (slotStates r)[slotIndex := st] \<rparr>"

text \<open>
  The head of the loop, up to the first \<^verbatim>\<open>await\<close>:
  \<^verbatim>\<open>
  while (true) {
    // If workers are disabled at runtime, continue on one main-thread lane only.
    if (workerDisabled && slotIndex > 0) { return }
    const index = nextIndex++
    if (index >= totalPages) { return }
    ...
    const imgBlob = await getBlob(index)
  \<close>
\<close>

definition enterLoop :: "nat \<Rightarrow> Run \<Rightarrow> Run" where
  "enterLoop slotIndex r =
     (if workerDisabled r \<and> 0 < slotIndex then setSlot slotIndex Returned r
      else
        let index = nextIndex r;
            r' = r\<lparr> nextIndex := index + 1 \<rparr>
        in if totalPages r \<le> index then setSlot slotIndex Returned r'
           else setSlot slotIndex (AwaitBlob index) r')"


text \<open>
  The end of an iteration, and on to the head of the loop:
  \<^verbatim>\<open>
    pageResultsByIndex[index] = pageResults
    ...
    completed++
    onProgress(completed / totalPages, previewForProgress)
  }
  \<close>
\<close>

definition finishPage :: "nat \<Rightarrow> nat \<Rightarrow> EncodedPage list \<Rightarrow> Run \<Rightarrow> Run" where
  "finishPage slotIndex index pageResults r =
     enterLoop slotIndex
       (r\<lparr> pageResultsByIndex := (pageResultsByIndex r)(index \<mapsto> pageResults),
           completed := completed r + 1,
           assigned := assigned r @ [index] \<rparr>)"












section \<open>Notions used in the statements\<close>

text \<open>The red channel of pixel \<open>(x, y)\<close> of an image is present and at least 128.\<close>

definition redAtLeast128 :: "ImageData \<Rightarrow> nat \<Rightarrow> nat \<Rightarrow> bool" where
  "redAtLeast128 imageData y x \<longleftrightarrow>
     (y * width imageData + x) * 4 < length (data imageData)
     \<and> 128 \<le> data imageData ! ((y * width imageData + x) * 4)"

text \<open>The 16 bytes of one index entry: offset, size, width and height.\<close>

definition indexEntry :: "nat \<Rightarrow> nat \<Rightarrow> byte list" where
  "indexEntry off sz =
     setBigUint64 off @ setUint32 sz @ setUint16 TARGET_WIDTH @ setUint16 TARGET_HEIGHT"

text \<open>The first part of every name of a page: the page number in at least four digits.\<close>

definition pagePrefix :: "nat \<Rightarrow> string" where
  "pagePrefix pageNum = padStart 4 (CHR ''0'') (String_of pageNum)"

text \<open>The jobs in flight, slot by slot, as \<^verbatim>\<open>destroy\<close> visits them.\<close>

definition inFlightList :: "WorkerSlot list \<Rightarrow> QueueJob list" where
  "inFlightList ss = concat (map (\<lambda>slot. case currentJob slot of None \<Rightarrow> [] | Some job \<Rightarrow> [job]) ss)"

text \<open>
  The invariant of the pool: every pending promise belongs to a job the pool holds; a
  slot that is not busy has no current job; and a destroyed pool holds no job and has
  terminated every worker.
\<close>

definition idleIsFree :: "WorkerSlot list \<Rightarrow> bool" where
  "idleIsFree ss \<longleftrightarrow> (\<forall>slot\<in>set ss. \<not> busy slot \<longrightarrow> currentJob slot = None)"

definition poolInv :: "ConvertWorkerPool \<Rightarrow> bool" where
  "poolInv p \<longleftrightarrow>
     pendingIds p \<subseteq> jobId ` heldJobs p
     \<and> idleIsFree (slots p)
     \<and> (isDestroyed p \<longrightarrow>
           queue p = [] \<and> (\<forall>slot\<in>set (slots p). terminated slot \<and> currentJob slot = None))"







section \<open>Concrete inputs\<close>

text \<open>Options with no margins, landscape orientation and the half split.\<close>

definition halfOptions :: ConversionOptions where
  "halfOptions = \<lparr> device = X4, splitMode = ''half'', dithering = ''floyd'',
     contrast = Finite 4, horizontalMargin = Finite 0, verticalMargin = Finite 0,
     orientation = Landscape, landscapeFlipClockwise = False, showProgressPreview = False \<rparr>"

text \<open>Ten archive entries, numbered 1 to 10 in path order, and metadata naming page 5.\<close>

definition tenFiles :: "ImageFile list" where
  "tenFiles = map (\<lambda>i. \<lparr> path = ''p'' @ String_of i @ ''.png'', originalPage = i \<rparr>) [1 ..< 11]"

definition coverFive :: BookMetadata where
  "coverFive = \<lparr> coverPage = Some (Finite 5), coverImagePath = None, toc = [] \<rparr>"

text \<open>Options with the overlap split, and metadata that names no cover.\<close>

definition overlapOptions :: ConversionOptions where
  "overlapOptions = \<lparr> device = X4, splitMode = ''overlap'', dithering = ''floyd'',
     contrast = Finite 4, horizontalMargin = Finite 0, verticalMargin = Finite 0,
     orientation = Landscape, landscapeFlipClockwise = False, showProgressPreview = False \<rparr>"

definition noCover :: BookMetadata where
  "noCover = \<lparr> coverPage = None, coverImagePath = None, toc = [] \<rparr>"

text \<open>
  Four source pages with 2, 0, 1 and 3 output pages, completed in the order 3, 1, 4, 2
  and in source order.
\<close>

definition blankPage :: "string \<Rightarrow> EncodedPage" where
  "blankPage nm = \<lparr> name = nm, xtg = [] \<rparr>"

definition completedOutOfOrder :: "(nat \<times> EncodedPage list) list" where
  "completedOutOfOrder =
     [(2, [blankPage ''0003_0_spread.png'']),
      (0, [blankPage ''0001_2_a.png'', blankPage ''0001_2_b.png'']),
      (3, [blankPage ''0004_3_a.png'', blankPage ''0004_3_b.png'', blankPage ''0004_3_c.png'']),
      (1, [])]"

definition completedInOrder :: "(nat \<times> EncodedPage list) list" where
  "completedInOrder =
     [(0, [blankPage ''0001_2_a.png'', blankPage ''0001_2_b.png'']),
      (1, []),
      (2, [blankPage ''0003_0_spread.png'']),
      (3, [blankPage ''0004_3_a.png'', blankPage ''0004_3_b.png'', blankPage ''0004_3_c.png''])]"

text \<open>An image of two pixels, the first light and the second dark.\<close>

definition twoPixels :: ImageData where
  "twoPixels = \<lparr> width = 2, height = 1, data = [200, 0, 0, 255, 10, 0, 0, 255] \<rparr>"

text \<open>A white canvas of the target size, and a container of this one page.\<close>

definition whiteCanvas :: Canvas where
  "whiteCanvas = \<lparr> canvasWidth = 480, canvasHeight = 800, rgba = (\<lambda>x y. (255, 255, 255, 255)) \<rparr>"

definition onePage :: "CanvasPage list" where
  "onePage = [\<lparr> name = ''0001_0_spread.png'', canvas = whiteCanvas \<rparr>]"

text \<open>
  The three pages of the naming example, with the contents \<open>[1]\<close>, \<open>[2]\<close> and \<open>[3]\<close>, in
  generation order and in a completion order; the sizes and options of two source pages, the first split in half and the second a
  spread.
\<close>

definition threePages :: "EncodedPage list" where
  "threePages = [\<lparr> name = ''0001_2_a.png'', xtg = [1] \<rparr>, \<lparr> name = ''0001_2_b.png'', xtg = [2] \<rparr>,
                 \<lparr> name = ''0002_0_spread.png'', xtg = [3] \<rparr>]"

definition threePagesShuffled :: "EncodedPage list" where
  "threePagesShuffled = [\<lparr> name = ''0002_0_spread.png'', xtg = [3] \<rparr>,
                         \<lparr> name = ''0001_2_b.png'', xtg = [2] \<rparr>,
                         \<lparr> name = ''0001_2_a.png'', xtg = [1] \<rparr>]"

text \<open>A container builder that only joins the pages, for reading the order off its result.\<close>

definition joinPages :: "byte list list \<Rightarrow> BookMetadata \<Rightarrow> byte list" where
  "joinPages xtgPages metadata = concat xtgPages"

definition twoSourceNames :: "nat \<Rightarrow> string list" where
  "twoSourceNames i =
     map name (processLoadedImage (\<lambda>w h. []) (if i = 0 then 4 else 6) (if i = 0 then 6 else 4)
       (Suc i) halfOptions)"

text \<open>A pool of two workers after three calls of \<^verbatim>\<open>processPage\<close>: two jobs in flight, one queued.\<close>

definition busyPool :: ConvertWorkerPool where
  "busyPool =
     snd (processPage 3 False (snd (processPage 2 False (snd (processPage 1 False
       (newConvertWorkerPool 2))))))"

text \<open>
  Three overlapping segments of a page 600 wide and 900 high; an archive of two such
  images, and one whose first image does not load.
\<close>

definition threeSegments :: "int \<Rightarrow> int \<Rightarrow> Segment list" where
  "threeSegments w h =
     [\<lparr> seg_x = 0, seg_y = 0, seg_w = 600, seg_h = 360 \<rparr>,
      \<lparr> seg_x = 0, seg_y = 270, seg_w = 600, seg_h = 360 \<rparr>,
      \<lparr> seg_x = 0, seg_y = 540, seg_w = 600, seg_h = 360 \<rparr>]"

definition twoImages :: "(int \<times> int) option list" where
  "twoImages = [Some (600, 900), Some (600, 900)]"

definition firstImageBroken :: "(int \<times> int) option list" where
  "firstImageBroken = [None, Some (600, 900)]"

text \<open>
  Options with given margins; and the doubles that the literals \<^verbatim>\<open>2.4\<close> and \<^verbatim>\<open>18.4\<close>
  denote, \<open>5404319552844595 / 2^51\<close> and \<open>2589569785738035 / 2^47\<close>, both a little below
  the decimal.
\<close>

definition marginOptions :: "number \<Rightarrow> number \<Rightarrow> ConversionOptions" where
  "marginOptions h v = \<lparr> device = X4, splitMode = ''overlap'', dithering = ''floyd'',
     contrast = Finite 4, horizontalMargin = h, verticalMargin = v,
     orientation = Landscape, landscapeFlipClockwise = False, showProgressPreview = False \<rparr>"

definition double_2_4 :: real where
  "double_2_4 = 5404319552844595 / 2 ^ 51"

definition double_18_4 :: real where
  "double_18_4 = 2589569785738035 / 2 ^ 47"







section \<open>Properties of the crop rectangle\<close>

lemma roundDouble_zero [simp]: "roundDouble 0 = 0"
  by (simp add: roundDouble_def)

lemma binaryExponent_le:
  assumes "x \<noteq> 0"
  shows "2 powi binaryExponent x \<le> \<bar>x\<bar>"
proof (cases "1 \<le> \<bar>x\<bar>")
  case True
  define n where "n = \<lfloor>\<bar>x\<bar>\<rfloor>"
  have n: "0 < n"
    using True by (simp add: n_def)
  then have "1 \<le> bitlen n"
    using bitlen_eq_zero_iff [of n] bitlen_nonneg [of n] by linarith
  then have "(2::real) powi (bitlen n - 1) = 2 ^ nat (bitlen n - 1)"
    by (simp add: power_int_def)
  also have "\<dots> = real_of_int (2 ^ nat (bitlen n - 1))"
    by simp
  also have "\<dots> \<le> real_of_int n"
    using bitlen_bounds [OF n] by (intro of_int_le_iff [THEN iffD2]) simp
  also have "\<dots> \<le> \<bar>x\<bar>"
    by (simp add: n_def)
  finally show ?thesis
    using True by (simp add: binaryExponent_def n_def)
next
  case False
  define c where "c = \<lceil>1 / \<bar>x\<bar>\<rceil>"
  define k where "k = bitlen (c - 1)"
  have pos: "0 < \<bar>x\<bar>"
    using assms by simp
  have "1 < 1 / \<bar>x\<bar>"
    using False pos by simp
  then have "1 < c"
    unfolding c_def by (simp add: less_ceiling_iff)
  then have "0 < c - 1"
    by simp
  then have "c - 1 < 2 ^ nat k"
    unfolding k_def using bitlen_bounds by blast
  then have "c \<le> 2 ^ nat k"
    by simp
  then have "real_of_int c \<le> 2 ^ nat k"
    by simp
  moreover have "1 / \<bar>x\<bar> \<le> real_of_int c"
    unfolding c_def by (rule le_of_int_ceiling)
  ultimately have "1 / \<bar>x\<bar> \<le> 2 ^ nat k"
    by (rule order_trans [rotated])
  then have "1 \<le> 2 ^ nat k * \<bar>x\<bar>"
    using pos by (simp add: field_simps)
  then have "1 / 2 ^ nat k \<le> \<bar>x\<bar>"
    by (simp add: field_simps)
  moreover have "(2::real) powi (- k) = 1 / 2 ^ nat k"
  proof -
    have "0 \<le> k"
      unfolding k_def by (rule bitlen_nonneg)
    then have "(2::real) powi k = 2 ^ nat k"
      by (simp add: power_int_def)
    then show ?thesis
      by (simp add: power_int_minus inverse_eq_divide)
  qed
  ultimately show ?thesis
    using False by (simp add: binaryExponent_def c_def k_def)
qed

lemma ulp_pos: "0 < ulp x"
  by (simp add: ulp_def)

lemma ulp_bound:
  assumes "x \<noteq> 0"
  shows "ulp x \<le> max (\<bar>x\<bar> / 2 ^ 52) (2 powi (- 1074))"
proof (cases "- 1022 \<le> binaryExponent x")
  case True
  then have "ulp x = 2 powi (binaryExponent x - 52)"
    by (simp add: ulp_def max_def)
  also have "\<dots> = 2 powi binaryExponent x / 2 ^ 52"
    by (simp add: power_int_diff)
  also have "\<dots> \<le> \<bar>x\<bar> / 2 ^ 52"
    using binaryExponent_le [OF assms] by (simp add: divide_right_mono)
  finally show ?thesis
    by simp
next
  case False
  then have "ulp x = 2 powi (- 1074)"
    by (simp add: ulp_def max_def)
  then show ?thesis
    by simp
qed

lemma roundTiesToEven_error: "\<bar>real_of_int (roundTiesToEven y) - y\<bar> \<le> 1 / 2"
  unfolding roundTiesToEven_def Let_def by (auto; linarith)

lemma roundTiesToEven_nonneg: "0 \<le> y \<Longrightarrow> 0 \<le> roundTiesToEven y"
  unfolding roundTiesToEven_def Let_def by auto

lemma roundDouble_nonneg: "0 \<le> x \<Longrightarrow> 0 \<le> roundDouble x"
  using ulp_pos [of x] by (simp add: roundDouble_def roundTiesToEven_nonneg)

lemma roundDouble_error: "\<bar>roundDouble x - x\<bar> \<le> ulp x / 2"
proof (cases "x = 0")
  case True
  then show ?thesis
    using ulp_pos [of x] by (simp add: roundDouble_def)
next
  case False
  have u: "0 < ulp x"
    by (rule ulp_pos)
  have "roundDouble x - x = (real_of_int (roundTiesToEven (x / ulp x)) - x / ulp x) * ulp x"
    using False u by (simp add: roundDouble_def field_simps)
  then have "\<bar>roundDouble x - x\<bar> = \<bar>real_of_int (roundTiesToEven (x / ulp x)) - x / ulp x\<bar> * ulp x"
    using u by (simp add: abs_mult)
  also have "\<dots> \<le> 1 / 2 * ulp x"
    using roundTiesToEven_error [of "x / ulp x"] u by (intro mult_right_mono) simp_all
  finally show ?thesis
    by simp
qed

lemma subnormal_step_small: "(2::real) powi (- 1074) \<le> 1 / 8"
proof -
  have "(2::real) powi (- 1074) \<le> 2 powi (- 3)"
    by (rule power_int_increasing) simp_all
  also have "\<dots> = 1 / 8"
    by (simp add: power_int_minus inverse_eq_divide)
  finally show ?thesis .
qed

lemma roundDouble_close:
  assumes "0 \<le> x"
  shows "\<bar>roundDouble x - x\<bar> \<le> x / 2 ^ 53 + 1 / 16"
proof (cases "x = 0")
  case True
  then show ?thesis by (simp add: roundDouble_def)
next
  case False
  have "ulp x \<le> max (\<bar>x\<bar> / 2 ^ 52) (2 powi (- 1074))"
    using False by (rule ulp_bound)
  also have "\<dots> \<le> max (x / 2 ^ 52) (1 / 8)"
    using assms subnormal_step_small by (intro max.mono) simp_all
  also have "\<dots> \<le> x / 2 ^ 52 + 1 / 8"
    using assms by simp
  finally have "ulp x / 2 \<le> x / 2 ^ 53 + 1 / 16"
    by simp
  then show ?thesis
    using roundDouble_error [of x] by linarith
qed

lemma floor_close:
  fixes a b :: real
  assumes "\<bar>a - b\<bar> < 1"
  shows "\<bar>\<lfloor>a\<rfloor> - \<lfloor>b\<rfloor>\<bar> \<le> 1"
  using assms by linarith

lemma crop_amount_close:
  fixes d :: int and m :: real
  assumes d: "1 \<le> d" "d < 2 ^ 53" and m: "0 \<le> m" "m \<le> 20"
  shows "\<bar>\<lfloor>roundDouble (roundDouble (real_of_int d * m) / 100)\<rfloor> - \<lfloor>real_of_int d * m / 100\<rfloor>\<bar> \<le> 1"
proof -
  define x where "x = real_of_int d * m"
  define p where "p = roundDouble x"
  define q where "q = roundDouble (p / 100)"
  have x0: "0 \<le> x"
    using d(1) m(1) by (simp add: x_def)
  have "real_of_int d \<le> 2 ^ 53"
    using d(2) by (metis of_int_le_iff less_imp_le of_int_numeral of_int_power)
  then have "x \<le> 2 ^ 53 * 20"
    unfolding x_def using m d(1) by (intro mult_mono) simp_all
  then have x1: "x / 2 ^ 53 \<le> 20"
    by simp
  have p0: "0 \<le> p"
    unfolding p_def using x0 by (rule roundDouble_nonneg)
  have px: "\<bar>p - x\<bar> \<le> x / 2 ^ 53 + 1 / 16"
    unfolding p_def using x0 by (rule roundDouble_close)
  then have p1: "p \<le> x + 21"
    using x1 by linarith
  have "0 \<le> p / 100"
    using p0 by simp
  then have qp: "\<bar>q - p / 100\<bar> \<le> p / 100 / 2 ^ 53 + 1 / 16"
    unfolding q_def by (rule roundDouble_close)
  have "p / 100 / 2 ^ 53 \<le> (x + 21) / 100 / 2 ^ 53"
    using p1 by (simp add: divide_right_mono)
  also have "\<dots> = x / 2 ^ 53 / 100 + 21 / 100 / 2 ^ 53"
    by (simp add: field_simps)
  also have "\<dots> \<le> 20 / 100 + 21 / 100"
    using x1 by (intro add_mono) (simp_all add: field_simps)
  finally have quotient: "\<bar>q - p / 100\<bar> \<le> 41 / 100 + 1 / 16"
    using qp by linarith
  have "\<bar>p - x\<bar> \<le> 20 + 1 / 16"
    using px x1 by linarith
  then have product: "p - x \<le> 20 + 1 / 16" "- (p - x) \<le> 20 + 1 / 16"
    by (rule abs_le_D1, rule abs_le_D2)
  have "q - x / 100 < 1"
    using abs_le_D1 [OF quotient] product(1) by linarith
  moreover have "- (q - x / 100) < 1"
    using abs_le_D2 [OF quotient] product(2) by linarith
  ultimately have "\<bar>q - x / 100\<bar> < 1"
    by (simp add: abs_less_iff)
  then show ?thesis
    unfolding q_def p_def x_def by (rule floor_close)
qed

lemma clampMarginPercent_cases:
  "clampMarginPercent v
     = (case v of Finite x \<Rightarrow> max 0 (min 20 x) | NaN \<Rightarrow> 0 | PosInfinity \<Rightarrow> 0 | NegInfinity \<Rightarrow> 0)"
  by (cases v) simp_all

lemma clampMarginPercent_range: "0 \<le> clampMarginPercent v \<and> clampMarginPercent v \<le> 20"
  by (cases v) auto

lemma axis_crop_nonneg:
  assumes "1 \<le> d" "0 \<le> m"
  shows "0 \<le> min \<lfloor>roundDouble (roundDouble (real_of_int d * m) / 100)\<rfloor> ((d - 1) div 2)"
proof -
  have "0 \<le> real_of_int d * m" using assms by simp
  then have "0 \<le> roundDouble (real_of_int d * m) / 100"
    by (simp add: roundDouble_nonneg)
  then have "0 \<le> roundDouble (roundDouble (real_of_int d * m) / 100)"
    by (rule roundDouble_nonneg)
  then have "0 \<le> \<lfloor>roundDouble (roundDouble (real_of_int d * m) / 100)\<rfloor>" by simp
  moreover have "0 \<le> (d - 1) div 2" using assms by simp
  ultimately show ?thesis by simp
qed

lemma axis_crop_keeps_pixel:
  assumes "(1::int) \<le> d" "c \<le> (d - 1) div 2"
  shows "1 \<le> d - c * 2"
  using assms by linarith

text \<open>
  Claim C8, as the code has it. For integer source dimensions from 1 to below \<open>2^53\<close> and
  any margin values, \<open>getAxisCropRect\<close> takes a margin that is not finite as 0 and
  clamps a finite one to \<open>[0, 20]\<close>, and crops each axis by
  \<open>min (floor (dimension * margin / 100)) (floor ((dimension - 1) / 2))\<close> where the
  product and the quotient are those of doubles, each rounded to the nearest double.
  The rounded amount \<open>floor (dimension * margin / 100)\<close> is within one of the exact one.
  The crop is taken off both sides of the axis (the rectangle starts at the crop amount
  and as much is left over after it), it is never negative and never more than
  \<open>floor ((dimension - 1) / 2)\<close>, and the rectangle is at least 1 by 1.
\<close>

theorem getAxisCropRect_spec:
  fixes sourceWidth sourceHeight :: int and options :: "'a ConversionOptions_scheme"
  assumes "1 \<le> sourceWidth" and "sourceWidth < 2 ^ 53"
      and "1 \<le> sourceHeight" and "sourceHeight < 2 ^ 53"
  defines "r \<equiv> getAxisCropRect sourceWidth sourceHeight options"
  defines "hm \<equiv> (case horizontalMargin options of
                   Finite v \<Rightarrow> max 0 (min 20 v) | NaN \<Rightarrow> 0 | PosInfinity \<Rightarrow> 0 | NegInfinity \<Rightarrow> 0)"
  defines "vm \<equiv> (case verticalMargin options of
                   Finite v \<Rightarrow> max 0 (min 20 v) | NaN \<Rightarrow> 0 | PosInfinity \<Rightarrow> 0 | NegInfinity \<Rightarrow> 0)"
  defines "cropX \<equiv> \<lfloor>roundDouble (roundDouble (real_of_int sourceWidth * hm) / 100)\<rfloor>"
  defines "cropY \<equiv> \<lfloor>roundDouble (roundDouble (real_of_int sourceHeight * vm) / 100)\<rfloor>"
  shows "0 \<le> hm \<and> hm \<le> 20 \<and> 0 \<le> vm \<and> vm \<le> 20
       \<and> rect_x r = min cropX ((sourceWidth - 1) div 2)
       \<and> rect_y r = min cropY ((sourceHeight - 1) div 2)
       \<and> \<bar>cropX - \<lfloor>real_of_int sourceWidth * hm / 100\<rfloor>\<bar> \<le> 1
       \<and> \<bar>cropY - \<lfloor>real_of_int sourceHeight * vm / 100\<rfloor>\<bar> \<le> 1
       \<and> 0 \<le> rect_x r \<and> rect_x r \<le> (sourceWidth - 1) div 2
       \<and> 0 \<le> rect_y r \<and> rect_y r \<le> (sourceHeight - 1) div 2
       \<and> sourceWidth - (rect_x r + rect_width r) = rect_x r
       \<and> sourceHeight - (rect_y r + rect_height r) = rect_y r
       \<and> 1 \<le> rect_width r \<and> 1 \<le> rect_height r"
proof -
  have hm_eq: "hm = clampMarginPercent (horizontalMargin options)"
    and vm_eq: "vm = clampMarginPercent (verticalMargin options)"
    by (simp_all add: hm_def vm_def clampMarginPercent_cases)
  have hm: "0 \<le> hm" "hm \<le> 20" and vm: "0 \<le> vm" "vm \<le> 20"
    using clampMarginPercent_range by (simp_all add: hm_eq vm_eq)
  have x: "rect_x r = min cropX ((sourceWidth - 1) div 2)"
    and y: "rect_y r = min cropY ((sourceHeight - 1) div 2)"
    and w: "rect_width r = max 1 (sourceWidth - rect_x r * 2)"
    and h: "rect_height r = max 1 (sourceHeight - rect_y r * 2)"
    by (simp_all add: r_def hm_eq vm_eq cropX_def cropY_def getAxisCropRect_def Let_def)
  have closeX: "\<bar>cropX - \<lfloor>real_of_int sourceWidth * hm / 100\<rfloor>\<bar> \<le> 1"
    unfolding cropX_def using assms(1,2) hm by (rule crop_amount_close)
  have closeY: "\<bar>cropY - \<lfloor>real_of_int sourceHeight * vm / 100\<rfloor>\<bar> \<le> 1"
    unfolding cropY_def using assms(3,4) vm by (rule crop_amount_close)
  have x0: "0 \<le> rect_x r" and y0: "0 \<le> rect_y r"
    unfolding x y cropX_def cropY_def
    using assms(1,3) hm(1) vm(1) by (simp_all only: axis_crop_nonneg)
  have xm: "rect_x r \<le> (sourceWidth - 1) div 2" and ym: "rect_y r \<le> (sourceHeight - 1) div 2"
    unfolding x y by simp_all
  have w1: "1 \<le> sourceWidth - rect_x r * 2" and h1: "1 \<le> sourceHeight - rect_y r * 2"
    using axis_crop_keeps_pixel assms(1,3) xm ym by simp_all
  have w': "rect_width r = sourceWidth - rect_x r * 2"
    and h': "rect_height r = sourceHeight - rect_y r * 2"
    using w h w1 h1 by simp_all
  have bothSidesX: "sourceWidth - (rect_x r + rect_width r) = rect_x r"
    and bothSidesY: "sourceHeight - (rect_y r + rect_height r) = rect_y r"
    unfolding w' h' by linarith+
  have atLeastOne: "1 \<le> rect_width r" "1 \<le> rect_height r"
    unfolding w' h' using w1 h1 by blast+
  show ?thesis
    using hm vm x y closeX closeY x0 y0 xm ym bothSidesX bothSidesY atLeastOne by blast
qed

theorem getAxisCropRect_spec_witness:
  "(1::int) \<le> 1000 \<and> (1000::int) < 2 ^ 53 \<and> (1::int) \<le> 11 \<and> (11::int) < 2 ^ 53
   \<and> getAxisCropRect 1000 11 (marginOptions PosInfinity NaN)
     = \<lparr> rect_x = 0, rect_y = 0, rect_width = 1000, rect_height = 11 \<rparr>
   \<and> getAxisCropRect 1000 11 (marginOptions (Finite 12.5) (Finite 50))
     = \<lparr> rect_x = 125, rect_y = 2, rect_width = 750, rect_height = 7 \<rparr>
   \<and> getAxisCropRect 1000 11 (marginOptions (Finite (- 3)) NegInfinity)
     = \<lparr> rect_x = 0, rect_y = 0, rect_width = 1000, rect_height = 11 \<rparr>"
proof -
  have bounds: "(1::int) \<le> 1000" "(1000::int) < 2 ^ 53" "(1::int) \<le> 11" "(11::int) < 2 ^ 53"
    by simp_all
  note spec = getAxisCropRect_spec [OF bounds, of "marginOptions PosInfinity NaN"]
  have "rect_x (getAxisCropRect 1000 11 (marginOptions PosInfinity NaN)) = 0"
      "rect_y (getAxisCropRect 1000 11 (marginOptions PosInfinity NaN)) = 0"
      "rect_width (getAxisCropRect 1000 11 (marginOptions PosInfinity NaN)) = 1000"
      "rect_height (getAxisCropRect 1000 11 (marginOptions PosInfinity NaN)) = 11"
    using spec by (simp_all add: marginOptions_def)
  then have notFinite: "getAxisCropRect 1000 11 (marginOptions PosInfinity NaN)
      = \<lparr> rect_x = 0, rect_y = 0, rect_width = 1000, rect_height = 11 \<rparr>"
    by (cases "getAxisCropRect 1000 11 (marginOptions PosInfinity NaN)") simp
  have clamped: "getAxisCropRect 1000 11 (marginOptions (Finite 12.5) (Finite 50))
      = \<lparr> rect_x = 125, rect_y = 2, rect_width = 750, rect_height = 7 \<rparr>"
    by code_simp
  have negative: "getAxisCropRect 1000 11 (marginOptions (Finite (- 3)) NegInfinity)
      = \<lparr> rect_x = 0, rect_y = 0, rect_width = 1000, rect_height = 11 \<rparr>"
    by code_simp
  show ?thesis
    using bounds notFinite clamped negative by blast
qed

text \<open>
  The crop amount is not always the floor of the exact \<open>dimension * margin / 100\<close>. At
  width 125 with the margin \<^verbatim>\<open>2.4\<close> the exact product is just below 300 and its floor
  after the division is 2, but the product of doubles rounds to 300 and the code crops
  3. Nor is it the floor for the decimal margin: at width 375 with the margin \<^verbatim>\<open>18.4\<close>
  the decimal gives 69 and the code crops 68.
\<close>

theorem getAxisCropRect_rounding_counterexample:
  "roundDouble (24 / 10) = double_2_4 \<and> roundDouble double_2_4 = double_2_4
   \<and> rect_x (getAxisCropRect 125 125 (marginOptions (Finite double_2_4) (Finite 0))) = 3
   \<and> min \<lfloor>real_of_int 125 * max 0 (min 20 double_2_4) / 100\<rfloor> ((125 - 1) div 2) = 2
   \<and> roundDouble (184 / 10) = double_18_4
   \<and> rect_x (getAxisCropRect 375 375 (marginOptions (Finite double_18_4) (Finite 0))) = 68
   \<and> min \<lfloor>real_of_int 375 * max 0 (min 20 (184 / 10)) / 100\<rfloor> ((375 - 1) div 2) = 69"
proof -
  have literal: "roundDouble (24 / 10) = double_2_4" "roundDouble double_2_4 = double_2_4"
      "roundDouble (184 / 10) = double_18_4"
    by code_simp+
  have code: "rect_x (getAxisCropRect 125 125 (marginOptions (Finite double_2_4) (Finite 0))) = 3"
      "rect_x (getAxisCropRect 375 375 (marginOptions (Finite double_18_4) (Finite 0))) = 68"
    by code_simp+
  have exact: "min \<lfloor>real_of_int 125 * max 0 (min 20 double_2_4) / 100\<rfloor> ((125 - 1) div 2) = 2"
      "min \<lfloor>real_of_int 375 * max 0 (min 20 (184 / 10)) / 100\<rfloor> ((375 - 1) div 2) = 69"
    by code_simp+
  show ?thesis
    using literal code exact by blast
qed

section \<open>The half split\<close>

lemma processLoadedImage_half:
  fixes options :: "'a ConversionOptions_scheme"
  assumes "orientation options = Landscape"
      and "rect_width (getAxisCropRect imgWidth imgHeight options)
             < rect_height (getAxisCropRect imgWidth imgHeight options)"
      and "splitMode options \<noteq> ''nosplit''" and "splitMode options \<noteq> ''overlap''"
  shows "processLoadedImage segs imgWidth imgHeight pageNum options =
           (let crop = getAxisCropRect imgWidth imgHeight options;
                rot = (if landscapeFlipClockwise options then - 90 else 90)
            in [extractAndRotate (pageName pageNum ''2'' ''a'')
                  0 0 (rect_width crop) (rect_height crop div 2) rot,
                extractAndRotate (pageName pageNum ''2'' ''b'')
                  0 (rect_height crop div 2) (rect_width crop) (rect_height crop div 2) rot])"
  using assms by (simp add: processLoadedImage_def Let_def)

lemma rowsOf_extractAndRotate: "rowsOf (extractAndRotate nm sx sy sw sh d) = {sy ..< sy + sh}"
  by (simp add: rowsOf_def extractAndRotate_def)

lemma half_bands_union: "{0 ..< k} \<union> {k ..< k + k} = {0 ..< 2 * k}" for k :: int
  by auto

text \<open>
  Claim C3, as the code has it. For a landscape-orientation page whose cropped width is
  less than its cropped height \<open>h\<close>, with a split mode that is neither \<^verbatim>\<open>nosplit\<close> nor
  \<^verbatim>\<open>overlap\<close> (\<^verbatim>\<open>half\<close> is one), exactly two bands are extracted, named with kind 2
  and the letters a and b: the top band is rows \<open>[0, floor (h/2))\<close>, the bottom band is
  rows \<open>[floor (h/2), 2 * floor (h/2))\<close>, both \<open>floor (h/2)\<close> rows high. Together they are
  the rows \<open>[0, 2 * floor (h/2))\<close>, which is the full height when \<open>h\<close> is even.
\<close>

theorem half_split_bands:
  fixes options :: "'a ConversionOptions_scheme"
    and segs :: "int \<Rightarrow> int \<Rightarrow> Segment list" and pageNum :: nat
  assumes "orientation options = Landscape"
      and "rect_width (getAxisCropRect imgWidth imgHeight options)
             < rect_height (getAxisCropRect imgWidth imgHeight options)"
      and "splitMode options \<noteq> ''nosplit''" and "splitMode options \<noteq> ''overlap''"
  defines "h \<equiv> rect_height (getAxisCropRect imgWidth imgHeight options)"
  defines "pages \<equiv> processLoadedImage segs imgWidth imgHeight pageNum options"
  shows "length pages = 2
       \<and> name (pages ! 0) = pageName pageNum ''2'' ''a''
       \<and> name (pages ! 1) = pageName pageNum ''2'' ''b''
       \<and> rowsOf (pages ! 0) = {0 ..< h div 2}
       \<and> rowsOf (pages ! 1) = {h div 2 ..< 2 * (h div 2)}
       \<and> src_h (pages ! 0) = h div 2 \<and> src_h (pages ! 1) = h div 2
       \<and> rowsOf (pages ! 0) \<union> rowsOf (pages ! 1) = {0 ..< 2 * (h div 2)}
       \<and> (even h \<longrightarrow> rowsOf (pages ! 0) \<union> rowsOf (pages ! 1) = {0 ..< h})"
proof -
  let ?rot = "if landscapeFlipClockwise options then - 90 else (90::int)"
  let ?w = "rect_width (getAxisCropRect imgWidth imgHeight options)"
  let ?a = "extractAndRotate (pageName pageNum ''2'' ''a'') 0 0 ?w (h div 2) ?rot"
  let ?b = "extractAndRotate (pageName pageNum ''2'' ''b'') 0 (h div 2) ?w (h div 2) ?rot"
  have pages: "pages = [?a, ?b]"
    unfolding pages_def h_def using processLoadedImage_half [OF assms(1-4)]
    by (simp add: Let_def)
  have top: "rowsOf (pages ! 0) = {0 ..< h div 2}"
    by (simp add: pages rowsOf_extractAndRotate)
  have bottom: "rowsOf (pages ! 1) = {h div 2 ..< 2 * (h div 2)}"
    by (simp add: pages rowsOf_extractAndRotate)
  have both: "rowsOf (pages ! 0) \<union> rowsOf (pages ! 1) = {0 ..< 2 * (h div 2)}"
    unfolding top bottom using half_bands_union [of "h div 2"] by simp
  have full: "even h \<longrightarrow> rowsOf (pages ! 0) \<union> rowsOf (pages ! 1) = {0 ..< h}"
    unfolding both by auto
  have names: "name (pages ! 0) = pageName pageNum ''2'' ''a''"
      "name (pages ! 1) = pageName pageNum ''2'' ''b''"
    and heights: "src_h (pages ! 0) = h div 2" "src_h (pages ! 1) = h div 2"
    by (simp_all add: pages extractAndRotate_def)
  show ?thesis
    using top bottom both full names heights by (simp add: pages)
qed

lemma crop_halfOptions:
  "1 \<le> w \<Longrightarrow> 1 \<le> h \<Longrightarrow>
   getAxisCropRect w h halfOptions = \<lparr> rect_x = 0, rect_y = 0, rect_width = w, rect_height = h \<rparr>"
  by (simp add: getAxisCropRect_def halfOptions_def)

theorem half_split_bands_witness:
  "orientation halfOptions = Landscape
   \<and> rect_width (getAxisCropRect 4 6 halfOptions) < rect_height (getAxisCropRect 4 6 halfOptions)
   \<and> splitMode halfOptions = ''half''
   \<and> rowsOf (processLoadedImage (\<lambda>w h. []) 4 6 3 halfOptions ! 0) = {0 ..< 3}
   \<and> rowsOf (processLoadedImage (\<lambda>w h. []) 4 6 3 halfOptions ! 1) = {3 ..< 6}
   \<and> rowsOf (processLoadedImage (\<lambda>w h. []) 4 6 3 halfOptions ! 0)
       \<union> rowsOf (processLoadedImage (\<lambda>w h. []) 4 6 3 halfOptions ! 1) = {0 ..< 6}"
proof -
  have crop: "getAxisCropRect 4 6 halfOptions
                = \<lparr> rect_x = 0, rect_y = 0, rect_width = 4, rect_height = 6 \<rparr>"
    by (simp add: crop_halfOptions)
  have opts: "orientation halfOptions = Landscape" "splitMode halfOptions \<noteq> ''nosplit''"
       "splitMode halfOptions \<noteq> ''overlap''" "splitMode halfOptions = ''half''"
    by (simp_all add: halfOptions_def)
  have narrow: "rect_width (getAxisCropRect 4 6 halfOptions)
                  < rect_height (getAxisCropRect 4 6 halfOptions)"
    by (simp add: crop)
  show ?thesis
    using half_split_bands [OF opts(1) narrow opts(2,3), of "\<lambda>w h. []" 3] opts(1,4) narrow
    by (auto simp add: crop)
qed

text \<open>
  With an odd cropped height the bottom band stops one row short: for a page 4 wide and 5
  high the bands are rows \<open>[0, 2)\<close> and \<open>[2, 4)\<close>, so the bottom band is not
  \<open>[2, 5)\<close> and row 4 is in neither band.
\<close>

theorem half_split_odd_height_counterexample:
  "rowsOf (processLoadedImage (\<lambda>w h. []) 4 5 3 halfOptions ! 1) \<noteq> {5 div 2 ..< 5}
   \<and> 4 \<notin> rowsOf (processLoadedImage (\<lambda>w h. []) 4 5 3 halfOptions ! 0)
           \<union> rowsOf (processLoadedImage (\<lambda>w h. []) 4 5 3 halfOptions ! 1)"
proof -
  have crop: "getAxisCropRect 4 5 halfOptions
                = \<lparr> rect_x = 0, rect_y = 0, rect_width = 4, rect_height = 5 \<rparr>"
    by (simp add: crop_halfOptions)
  have pages: "processLoadedImage (\<lambda>w h. []) 4 5 3 halfOptions =
      [extractAndRotate (pageName 3 ''2'' ''a'') 0 0 4 2 90,
       extractAndRotate (pageName 3 ''2'' ''b'') 0 2 4 2 90]"
    by (simp add: processLoadedImage_def crop Let_def) (simp add: halfOptions_def)
  have "(4::int) \<in> {5 div 2 ..< 5}" by simp
  moreover have "(4::int) \<notin> {2 ..< 2 + 2}" by simp
  ultimately have "{2 ..< 2 + 2} \<noteq> {5 div 2 ..< (5::int)}" by metis
  then show ?thesis
    by (simp add: pages rowsOf_extractAndRotate)
qed

section \<open>The cover page\<close>

lemma findIndex_Some:
  "findIndex P xs = Some i \<Longrightarrow> i < length xs \<and> P (xs ! i) \<and> (\<forall>j<i. \<not> P (xs ! j))"
proof (induction xs arbitrary: i)
  case Nil
  then show ?case by simp
next
  case (Cons x xs)
  show ?case
  proof (cases "P x")
    case True
    with Cons.prems show ?thesis by simp
  next
    case False
    with Cons.prems obtain k where k: "findIndex P xs = Some k" "i = Suc k"
      by auto
    from Cons.IH [OF k(1)] False k(2) show ?thesis
      by (auto simp: less_Suc_eq_0_disj)
  qed
qed

lemma findIndex_None: "findIndex P xs = None \<longleftrightarrow> (\<forall>x\<in>set xs. \<not> P x)"
  by (induction xs) auto

lemma findIndex_exists:
  assumes "x \<in> set xs" "P x"
  obtains i where "findIndex P xs = Some i"
  using assms findIndex_None [of P xs] by (cases "findIndex P xs") auto

lemma move_to_front_set:
  assumes "i < length xs"
  shows "set ((xs ! i) # (take i xs @ drop (Suc i) xs)) = set xs"
proof -
  have "xs = take i xs @ xs ! i # drop (Suc i) xs"
    using assms by (rule id_take_nth_drop)
  then have "set xs = set (take i xs @ xs ! i # drop (Suc i) xs)" by simp
  then show ?thesis by auto
qed

lemma move_to_front_length:
  assumes "i < length xs"
  shows "length ((xs ! i) # (take i xs @ drop (Suc i) xs)) = length xs"
  using assms by simp

lemma moveCoverToFront_by_page:
  fixes imageFiles :: "'a ImageFile_scheme list" and metadata :: "'b BookMetadata_scheme"
  assumes "2 \<le> length imageFiles"
      and "coverPage metadata = Some (Finite (real k))" and "0 < k"
      and "findIndex (\<lambda>file. originalPage file = k) imageFiles = Some i"
  shows "moveCoverToFront imageFiles metadata =
           (if 0 < i then (imageFiles ! i) # (take i imageFiles @ drop (Suc i) imageFiles)
            else imageFiles)"
proof -
  have "coverIndexByPage imageFiles metadata = Some i"
    using assms(2,3,4) by (simp add: coverIndexByPage_def)
  then show ?thesis
    using assms(1) by (simp add: moveCoverToFront_def Let_def split: option.splits)
qed

lemma getPageOptions_first: "splitMode (getPageOptions options 0) = ''nosplit''"
  by (simp add: getPageOptions_def getPageProcessingOptions_def)

lemma getPageOptions_later: "0 < index \<Longrightarrow> getPageOptions options index = options"
  by (simp add: getPageOptions_def getPageProcessingOptions_def)

text \<open>
  Claim C6. For at least two source pages and metadata whose \<^verbatim>\<open>coverPage\<close> is the
  (1-based) original page number \<open>k\<close> of some source page, \<open>moveCoverToFront\<close> puts that
  page first and keeps the same pages; the options of the first page in processing order
  have \<^verbatim>\<open>splitMode\<close> \<^verbatim>\<open>nosplit\<close> whatever the global split mode, and every other page
  is processed with the global options unchanged.
\<close>

theorem cover_first_and_unsplit:
  fixes imageFiles :: "'a ImageFile_scheme list" and metadata :: "'b BookMetadata_scheme"
    and options :: "'c ConversionOptions_scheme"
  assumes "2 \<le> length imageFiles"
      and "coverPage metadata = Some (Finite (real k))" and "0 < k"
      and "k \<in> originalPage ` set imageFiles"
  shows "originalPage (hd (moveCoverToFront imageFiles metadata)) = k
       \<and> set (moveCoverToFront imageFiles metadata) = set imageFiles
       \<and> length (moveCoverToFront imageFiles metadata) = length imageFiles
       \<and> splitMode (getPageOptions options 0) = ''nosplit''
       \<and> (\<forall>index. 0 < index \<longrightarrow> getPageOptions options index = options)"
proof -
  from assms(4) obtain f where f: "f \<in> set imageFiles" "originalPage f = k"
    by auto
  then obtain i where i: "findIndex (\<lambda>file. originalPage file = k) imageFiles = Some i"
    by (rule findIndex_exists)
  from findIndex_Some [OF i]
  have bound: "i < length imageFiles" and page: "originalPage (imageFiles ! i) = k"
    by simp_all
  have moved: "moveCoverToFront imageFiles metadata =
      (if 0 < i then (imageFiles ! i) # (take i imageFiles @ drop (Suc i) imageFiles)
       else imageFiles)"
    using assms(1,2,3) i by (rule moveCoverToFront_by_page)
  have nonempty: "imageFiles \<noteq> []"
    using assms(1) by auto
  have first: "originalPage (hd (moveCoverToFront imageFiles metadata)) = k"
  proof (cases "0 < i")
    case True
    then show ?thesis by (simp add: moved page)
  next
    case False
    then have "i = 0" by simp
    then show ?thesis using page nonempty by (simp add: moved hd_conv_nth)
  qed
  have same: "set (moveCoverToFront imageFiles metadata) = set imageFiles"
    using move_to_front_set [OF bound] by (simp add: moved)
  have len: "length (moveCoverToFront imageFiles metadata) = length imageFiles"
    using move_to_front_length [OF bound] bound by (auto simp add: moved)
  show ?thesis
    using first same len getPageOptions_first [of options] getPageOptions_later [of _ options]
    by simp
qed

lemma tenFiles_unfold:
  "tenFiles = map (\<lambda>i. \<lparr> path = ''p'' @ String_of i @ ''.png'', originalPage = i \<rparr>)
                [1, 2, 3, 4, 5, 6, 7, 8, 9, 10]"
proof -
  have "[1 ..< 11] = [1, 2, 3, 4, 5, 6, 7, 8, 9, 10::nat]"
    by (simp add: upt_conv_Cons)
  then show ?thesis by (simp add: tenFiles_def)
qed

theorem cover_first_and_unsplit_witness:
  "2 \<le> length tenFiles
   \<and> coverPage coverFive = Some (Finite (real 5))
   \<and> 5 \<in> originalPage ` set tenFiles
   \<and> splitMode overlapOptions = ''overlap''
   \<and> map originalPage (moveCoverToFront tenFiles coverFive) = [5, 1, 2, 3, 4, 6, 7, 8, 9, 10]
   \<and> originalPage (hd (moveCoverToFront tenFiles coverFive)) = 5
   \<and> splitMode (getPageOptions overlapOptions 0) = ''nosplit''
   \<and> splitMode (getPageOptions overlapOptions 1) = ''overlap''"
proof -
  have len: "2 \<le> length tenFiles"
    by (simp add: tenFiles_def)
  have cover: "coverPage coverFive = Some (Finite (real 5))"
    by (simp add: coverFive_def)
  have pos: "0 < (5::nat)"
    by simp
  have mem: "5 \<in> originalPage ` set tenFiles"
    by (simp add: tenFiles_unfold)
  have order: "map originalPage (moveCoverToFront tenFiles coverFive)
                 = [5, 1, 2, 3, 4, 6, 7, 8, 9, 10]"
    by (simp add: tenFiles_unfold moveCoverToFront_def coverIndexByPage_def coverFive_def)
  have later: "getPageOptions overlapOptions 1 = overlapOptions"
    using cover_first_and_unsplit [OF len cover pos mem, of overlapOptions] by simp
  have mode: "splitMode overlapOptions = ''overlap''"
    by (simp add: overlapOptions_def)
  show ?thesis
    using cover_first_and_unsplit [OF len cover pos mem, of overlapOptions]
      len cover mem order later mode
    by simp
qed

section \<open>The page mapping is built in source order\<close>

lemma collect_fold:
  "fold (collectStep res g) [m ..< m + k] (ctx, enc) =
     (ctx @ map (\<lambda>i. (g i, outputCount res i)) [m ..< m + k],
      enc @ concat (map (\<lambda>i. case res i of None \<Rightarrow> [] | Some ps \<Rightarrow> ps) [m ..< m + k]))"
proof (induction k arbitrary: ctx enc)
  case 0
  then show ?case by simp
next
  case (Suc k)
  have "[m ..< m + Suc k] = [m ..< m + k] @ [m + k]"
    by simp
  then show ?case
    using Suc.IH [of ctx enc]
    by (simp add: collectStep_def addOriginalPage_def outputCount_def split: option.splits)
qed

lemma collectResults_eq:
  "collectResults n res g =
     (map (\<lambda>i. (g i, outputCount res i)) [0 ..< n],
      concat (map (\<lambda>i. case res i of None \<Rightarrow> [] | Some ps \<Rightarrow> ps) [0 ..< n]))"
  using collect_fold [of res g 0 n "[]" "[]"]
  by (simp add: collectResults_def newPageMappingContext_def)

lemma recordResults_fold: "fold assignResult cs arr = arr ++ map_of (rev cs)"
proof (induction cs arbitrary: arr)
  case Nil
  then show ?case by simp
next
  case (Cons c cs)
  have "arr ++ map_of (rev (c # cs)) = assignResult c arr ++ map_of (rev cs)"
    by (cases c) (simp add: assignResult_def)
  then show ?case
    using Cons.IH [of "assignResult c arr"] by simp
qed

lemma recordResults_map_of:
  assumes "distinct (map fst cs)"
  shows "recordResults cs = map_of cs"
proof -
  have "recordResults cs = map_of (rev cs)"
    by (simp add: recordResults_def recordResults_fold)
  moreover have "map_of (rev cs) = map_of cs"
    using assms by (intro map_of_inject_set [THEN iffD2]) (simp_all add: rev_map [symmetric])
  ultimately show ?thesis by simp
qed

lemma recordResults_order_irrelevant:
  assumes "distinct (map fst cs)" "distinct (map fst cs')" "set cs = set cs'"
  shows "recordResults cs = recordResults cs'"
  using assms by (simp add: recordResults_map_of map_of_inject_set)

text \<open>
  Claim C7. The loop that runs after the join calls \<open>addOriginalPage\<close> once for each
  source index, in ascending order \<open>0, ..., totalPages - 1\<close>, with the original page
  number of that index and the number of output pages recorded for it, which is 0 for an
  index with an empty or missing result. The calls depend on the recorded results only:
  two completion orders that assign the same results to the same indices, each index at
  most once, give the same mapping context and the same page list.
\<close>

theorem mapping_built_in_source_order:
  fixes totalPages :: nat
  assumes "distinct (map fst completions)" and "distinct (map fst completions')"
      and "set completions = set completions'"
  defines "res \<equiv> recordResults completions"
  shows "fst (collectResults totalPages res getOriginalPage)
           = map (\<lambda>i. (getOriginalPage i, outputCount res i)) [0 ..< totalPages]
       \<and> length (fst (collectResults totalPages res getOriginalPage)) = totalPages
       \<and> (\<forall>i < totalPages.
             fst (collectResults totalPages res getOriginalPage) ! i
               = (getOriginalPage i, case map_of completions i of None \<Rightarrow> 0 | Some ps \<Rightarrow> length ps))
       \<and> (\<forall>i. (i, []) \<in> set completions \<or> i \<notin> fst ` set completions \<longrightarrow> outputCount res i = 0)
       \<and> collectResults totalPages (recordResults completions') getOriginalPage
           = collectResults totalPages res getOriginalPage"
proof -
  have res: "res = map_of completions"
    unfolding res_def using assms(1) by (rule recordResults_map_of)
  have calls: "fst (collectResults totalPages res getOriginalPage)
                 = map (\<lambda>i. (getOriginalPage i, outputCount res i)) [0 ..< totalPages]"
    by (simp add: collectResults_eq)
  have nth: "\<forall>i < totalPages.
      fst (collectResults totalPages res getOriginalPage) ! i
        = (getOriginalPage i, case map_of completions i of None \<Rightarrow> 0 | Some ps \<Rightarrow> length ps)"
    using calls by (simp add: outputCount_def res)
  have zero: "\<forall>i. (i, []) \<in> set completions \<or> i \<notin> fst ` set completions \<longrightarrow> outputCount res i = 0"
  proof (intro allI impI)
    fix i
    assume "(i, []) \<in> set completions \<or> i \<notin> fst ` set completions"
    then show "outputCount res i = 0"
    proof
      assume "(i, []) \<in> set completions"
      then have "map_of completions i = Some []"
        using assms(1) by simp
      then show ?thesis by (simp add: outputCount_def res)
    next
      assume "i \<notin> fst ` set completions"
      then have "map_of completions i = None"
        by (simp add: map_of_eq_None_iff)
      then show ?thesis by (simp add: outputCount_def res)
    qed
  qed
  have same: "recordResults completions' = res"
    unfolding res_def using assms(2,1) assms(3) [symmetric]
    by (rule recordResults_order_irrelevant)
  show ?thesis
    using calls nth zero by (simp add: same)
qed

theorem mapping_built_in_source_order_witness:
  "distinct (map fst completedOutOfOrder) \<and> distinct (map fst completedInOrder)
   \<and> set completedOutOfOrder = set completedInOrder
   \<and> fst (collectResults 4 (recordResults completedOutOfOrder) Suc)
       = [(1, 2), (2, 0), (3, 1), (4, 3)]
   \<and> collectResults 4 (recordResults completedInOrder) Suc
       = collectResults 4 (recordResults completedOutOfOrder) Suc"
proof -
  have d: "distinct (map fst completedOutOfOrder)" "distinct (map fst completedInOrder)"
    by (simp_all add: completedOutOfOrder_def completedInOrder_def)
  have s: "set completedOutOfOrder = set completedInOrder"
    by (auto simp add: completedOutOfOrder_def completedInOrder_def)
  have upt: "[0 ..< 4] = [0, 1, 2, 3::nat]"
    by (simp add: upt_conv_Cons)
  have counts: "map (\<lambda>i. (Suc i, outputCount (recordResults completedOutOfOrder) i)) [0 ..< 4]
                  = [(1, 2), (2, 0), (3, 1), (4, 3)]"
    by (simp add: upt outputCount_def recordResults_def assignResult_def completedOutOfOrder_def)
  show ?thesis
    using mapping_built_in_source_order [OF d s, of 4 Suc] d s counts by simp
qed

section \<open>Little-endian fields\<close>

lemma length_leBytes: "length (leBytes k v) = k"
  by (induction k arbitrary: v) auto

lemma leNat_leBytes: "leNat (leBytes k v) = v mod 256 ^ k"
proof (induction k arbitrary: v)
  case 0
  then show ?case by simp
next
  case (Suc k)
  have "unat (of_nat (v mod 256) :: byte) = v mod 256"
    by (simp add: unat_of_nat)
  then show ?case
    using Suc.IH [of "v div 256"] by (simp add: mod_mult2_eq)
qed

lemma leNat_append: "leNat (xs @ ys) = leNat xs + 256 ^ length xs * leNat ys"
  by (induction xs) (simp_all add: algebra_simps)

lemma length_setUint [simp]:
  "length (setUint8 v) = 1" "length (setUint16 v) = 2" "length (setUint32 v) = 4"
  "length (setBigUint64 v) = 8"
  by (simp_all add: setUint8_def setUint16_def setUint32_def setBigUint64_def Let_def length_leBytes)

lemma leNat_setUint16: "leNat (setUint16 v) = v mod 2 ^ 16"
  by (simp add: setUint16_def leNat_leBytes)

lemma leNat_setUint32: "leNat (setUint32 v) = v mod 2 ^ 32"
  by (simp add: setUint32_def leNat_leBytes)

lemma leNat_setBigUint64: "leNat (setBigUint64 v) = v mod 2 ^ 64"
proof -
  have "leNat (setBigUint64 v) = (v mod 2 ^ 32) mod 2 ^ 32 + 2 ^ 32 * ((v div 2 ^ 32) mod 2 ^ 32)"
    by (simp add: setBigUint64_def Let_def leNat_append leNat_setUint32)
  also have "\<dots> = v mod 2 ^ 32 + 2 ^ 32 * ((v div 2 ^ 32) mod 2 ^ 32)"
    by simp
  also have "\<dots> = v mod (2 ^ 32 * 2 ^ 32)"
    by (simp only: mod_mult2_eq)
  finally show ?thesis by simp
qed

lemma field_at:
  assumes "length pre = off" "length fld = k"
  shows "take k (drop off (pre @ fld @ rest)) = fld"
  using assms by simp

lemma length_xtcHeader: "length (xtcHeader n i d) = 48"
  by (simp add: xtcHeader_def)

lemma length_indexTable: "length (indexTable rel blobs) = 16 * length blobs"
  by (induction blobs arbitrary: rel) simp_all

lemma length_buildXtcBuffer:
  "length (buildXtcBuffer blobs) = 48 + 16 * length blobs + sum_list (map length blobs)"
  by (simp add: buildXtcBuffer_def Let_def length_xtcHeader length_indexTable length_concat)

lemma header_pageCount: "getUint16 (xtcHeader n i d @ rest) 6 = n mod 2 ^ 16"
proof -
  have "take 2 (drop 6 (xtcHeader n i d @ rest)) = setUint16 n"
    by (simp add: xtcHeader_def)
  then show ?thesis
    by (simp add: getUint16_def leNat_setUint16)
qed

lemma header_indexOffset: "getBigUint64 (xtcHeader n i d @ rest) 24 = i mod 2 ^ 64"
proof -
  have "take 8 (drop 24 (xtcHeader n i d @ rest)) = setBigUint64 i"
    by (simp add: xtcHeader_def)
  then show ?thesis
    by (simp add: getBigUint64_def leNat_setBigUint64)
qed

lemma header_dataOffset: "getBigUint64 (xtcHeader n i d @ rest) 32 = d mod 2 ^ 64"
proof -
  have "take 8 (drop 32 (xtcHeader n i d @ rest)) = setBigUint64 d"
    by (simp add: xtcHeader_def)
  then show ?thesis
    by (simp add: getBigUint64_def leNat_setBigUint64)
qed

section \<open>Bit packing of a page\<close>

lemma bit_set_pixel:
  "bit ((b :: byte) OR push_bit k 1) m \<longleftrightarrow> bit b m \<or> (m = k \<and> k < 8)"
  by (auto simp add: bit_simps)

lemma length_packPixel: "length (packPixel img rb y x pd) = length pd"
  by (simp add: packPixel_def Let_def)

lemma length_fold_packPixel: "length (fold (packPixel img rb y) xs pd) = length pd"
  by (induction xs arbitrary: pd) (simp_all add: length_packPixel)

lemma length_packRow: "length (packRow img rb y pd) = length pd"
  by (simp add: packRow_def length_fold_packPixel)

lemma length_fold_packRow: "length (fold (packRow img rb) ys pd) = length pd"
  by (induction ys arbitrary: pd) (simp_all add: length_packRow)

lemma length_packPixels: "length (packPixels img) = (width img + 7) div 8 * height img"
  by (simp add: packPixels_def Let_def length_fold_packRow)

lemma bit_packPixel:
  assumes "j < length pd"
  shows "bit (packPixel img rb y x pd ! j) m \<longleftrightarrow>
           bit (pd ! j) m \<or> (redAtLeast128 img y x \<and> j = y * rb + x div 8 \<and> m = 7 - x mod 8)"
proof (cases "redAtLeast128 img y x")
  case True
  let ?bi = "y * rb + x div 8" and ?k = "7 - x mod 8"
  have upd: "packPixel img rb y x pd = pd[?bi := pd ! ?bi OR push_bit ?k 1]"
    using True unfolding packPixel_def redAtLeast128_def Let_def by (simp only: if_True simp_thms)
  have k: "?k < 8" by simp
  show ?thesis
  proof (cases "j = ?bi")
    case same: True
    have "packPixel img rb y x pd ! j = pd ! ?bi OR push_bit ?k 1"
      unfolding upd using assms same by (simp only: nth_list_update_eq)
    then show ?thesis
      using True same k by (simp only: bit_set_pixel simp_thms)
  next
    case False
    then have "packPixel img rb y x pd ! j = pd ! j"
      unfolding upd by (simp only: nth_list_update_neq not_sym)
    with False show ?thesis by simp
  qed
next
  case False
  then have "packPixel img rb y x pd = pd"
    by (auto simp add: packPixel_def redAtLeast128_def Let_def)
  with False show ?thesis by simp
qed

lemma bit_fold_packPixel:
  assumes "j < length pd"
  shows "bit (fold (packPixel img rb y) xs pd ! j) m \<longleftrightarrow>
           bit (pd ! j) m \<or> (\<exists>x\<in>set xs. redAtLeast128 img y x \<and> j = y * rb + x div 8 \<and> m = 7 - x mod 8)"
  using assms
proof (induction xs arbitrary: pd)
  case Nil
  then show ?case by simp
next
  case (Cons x xs)
  have "j < length (packPixel img rb y x pd)"
    using Cons.prems by (simp add: length_packPixel)
  from Cons.IH [OF this] show ?case
    using bit_packPixel [OF Cons.prems, of img rb y x m] by auto
qed

lemma bit_packRow:
  assumes "j < length pd"
  shows "bit (packRow img rb y pd ! j) m \<longleftrightarrow>
           bit (pd ! j) m \<or> (\<exists>x<width img. redAtLeast128 img y x \<and> j = y * rb + x div 8 \<and> m = 7 - x mod 8)"
  using bit_fold_packPixel [OF assms, of img rb y "[0 ..< width img]" m]
  by (auto simp add: packRow_def)

lemma bit_fold_packRow:
  assumes "j < length pd"
  shows "bit (fold (packRow img rb) ys pd ! j) m \<longleftrightarrow>
           bit (pd ! j) m
           \<or> (\<exists>y\<in>set ys. \<exists>x<width img. redAtLeast128 img y x \<and> j = y * rb + x div 8 \<and> m = 7 - x mod 8)"
  using assms
proof (induction ys arbitrary: pd)
  case Nil
  then show ?case by simp
next
  case (Cons y ys)
  have "j < length (packRow img rb y pd)"
    using Cons.prems by (simp add: length_packRow)
  from Cons.IH [OF this] show ?case
    using bit_packRow [OF Cons.prems, of img rb y m] by auto
qed

lemma bit_packPixels:
  assumes "j < (width img + 7) div 8 * height img"
  shows "bit (packPixels img ! j) m \<longleftrightarrow>
           (\<exists>y<height img. \<exists>x<width img.
              redAtLeast128 img y x \<and> j = y * ((width img + 7) div 8) + x div 8 \<and> m = 7 - x mod 8)"
proof -
  let ?rb = "(width img + 7) div 8"
  let ?init = "replicate (?rb * height img) (0::byte)"
  have len: "j < length ?init"
    using assms by simp
  have zero: "\<not> bit (?init ! j) m"
    using assms by simp
  have rows: "(\<exists>y\<in>set [0 ..< height img]. P y) \<longleftrightarrow> (\<exists>y<height img. P y)" for P
    by auto
  have "bit (packPixels img ! j) m \<longleftrightarrow>
          bit (?init ! j) m
          \<or> (\<exists>y\<in>set [0 ..< height img]. \<exists>x<width img.
                redAtLeast128 img y x \<and> j = y * ?rb + x div 8 \<and> m = 7 - x mod 8)"
    unfolding packPixels_def Let_def by (rule bit_fold_packRow [OF len])
  then show ?thesis
    unfolding rows using zero by blast
qed

lemma byte_index_unique:
  fixes rb :: nat
  assumes "a < rb" "a' < rb" "y * rb + a = y' * rb + a'"
  shows "y = y' \<and> a = a'"
proof -
  have "(y * rb + a) div rb = y" "(y' * rb + a') div rb = y'"
    using assms(1,2) by simp_all
  then have "y = y'" using assms(3) by simp
  then show ?thesis using assms(3) by simp
qed

lemma column_byte_bound:
  fixes w :: nat
  assumes "x < w"
  shows "x div 8 < (w + 7) div 8"
proof -
  have "x + 8 \<le> w + 7" using assms by simp
  then have "(x + 8) div 8 \<le> (w + 7) div 8" by (rule div_le_mono)
  moreover have "(x + 8) div 8 = Suc (x div 8)" by simp
  ultimately show ?thesis by simp
qed

lemma bit_index_unique:
  fixes a b :: nat
  assumes "a < 8" "b < 8" "7 - a = 7 - b"
  shows "a = b"
  using assms by linarith

lemma pixel_position_unique:
  fixes w :: nat
  assumes "x < w" "x' < w"
    and "y * ((w + 7) div 8) + x div 8 = y' * ((w + 7) div 8) + x' div 8"
    and "7 - x mod 8 = 7 - x' mod 8"
  shows "y = y' \<and> x = x'"
proof -
  have "x div 8 < (w + 7) div 8" "x' div 8 < (w + 7) div 8"
    using assms(1,2) by (simp_all only: column_byte_bound)
  from byte_index_unique [OF this assms(3)] have y: "y = y'" and d: "x div 8 = x' div 8"
    by simp_all
  have "x mod 8 < 8" "x' mod 8 < 8" by simp_all
  then have "x mod 8 = x' mod 8"
    using assms(4) by (rule bit_index_unique)
  with d have "x = x'"
    by (metis div_mult_mod_eq)
  with y show ?thesis by simp
qed

lemma byte_index_bound:
  fixes w :: nat
  assumes "x < w" "y < h"
  shows "y * ((w + 7) div 8) + x div 8 < (w + 7) div 8 * h"
proof -
  have "x div 8 < (w + 7) div 8"
    using assms(1) by (rule column_byte_bound)
  then have "y * ((w + 7) div 8) + x div 8 < Suc y * ((w + 7) div 8)"
    by simp
  also have "\<dots> \<le> h * ((w + 7) div 8)"
    using assms(2) by (intro mult_le_mono1) simp
  finally show ?thesis by (simp add: mult.commute)
qed


lemma packed_bit:
  assumes "x < width img" "y < height img"
  shows "bit (packPixels img ! (y * ((width img + 7) div 8) + x div 8)) (7 - x mod 8)
           \<longleftrightarrow> redAtLeast128 img y x"
proof -
  let ?rb = "(width img + 7) div 8"
  have j: "y * ?rb + x div 8 < ?rb * height img"
    using assms by (rule byte_index_bound)
  show ?thesis
    unfolding bit_packPixels [OF j]
  proof
    assume "\<exists>y'<height img. \<exists>x'<width img. redAtLeast128 img y' x'
              \<and> y * ?rb + x div 8 = y' * ?rb + x' div 8 \<and> 7 - x mod 8 = 7 - x' mod 8"
    then obtain y' x' where *: "x' < width img" "redAtLeast128 img y' x'"
        "y * ?rb + x div 8 = y' * ?rb + x' div 8" "7 - x mod 8 = 7 - x' mod 8"
      by blast
    from pixel_position_unique [OF assms(1) *(1) *(3) *(4)] *(2)
    show "redAtLeast128 img y x" by simp
  next
    assume "redAtLeast128 img y x"
    with assms show "\<exists>y'<height img. \<exists>x'<width img. redAtLeast128 img y' x'
              \<and> y * ?rb + x div 8 = y' * ?rb + x' div 8 \<and> 7 - x mod 8 = 7 - x' mod 8"
      by blast
  qed
qed


section \<open>Layout of an encoded page\<close>

lemma length_md5digest: "length (md5digest pd) = 8"
  by (simp add: md5digest_def)

lemma imageDataToXtg_parts:
  "imageDataToXtg img =
     ([0x58, 0x54, 0x47, 0x00] @ setUint16 (width img) @ setUint16 (height img)
        @ setUint8 0 @ setUint8 0)
     @ setUint32 (length (packPixels img))
     @ (md5digest (packPixels img) @ packPixels img)"
  by (simp add: imageDataToXtg_def Let_def)

lemma length_imageDataToXtg:
  "length (imageDataToXtg img) = 22 + (width img + 7) div 8 * height img"
  by (simp add: imageDataToXtg_def Let_def length_md5digest length_packPixels)

lemma imageDataToXtg_body: "imageDataToXtg img ! (22 + j) = packPixels img ! j"
proof -
  define hdr where "hdr = [0x58, 0x54, 0x47, 0x00] @ setUint16 (width img)
      @ setUint16 (height img) @ setUint8 0 @ setUint8 0
      @ setUint32 (length (packPixels img)) @ md5digest (packPixels img)"
  have eq: "imageDataToXtg img = hdr @ packPixels img"
    by (simp add: hdr_def imageDataToXtg_def Let_def)
  have "length hdr = 22"
    by (simp add: hdr_def length_md5digest)
  then show ?thesis
    unfolding eq by (simp add: nth_append)
qed

lemma imageDataToXtg_dataSize:
  "getUint32 (imageDataToXtg img) 10 = ((width img + 7) div 8 * height img) mod 2 ^ 32"
proof -
  have "take 4 (drop 10 (imageDataToXtg img)) = setUint32 (length (packPixels img))"
    unfolding imageDataToXtg_parts by (rule field_at) simp_all
  then show ?thesis
    by (simp add: getUint32_def leNat_setUint32 length_packPixels)
qed

lemma rowBytes_ceiling: "(w + 7) div 8 = nat \<lceil>real w / 8\<rceil>"
  by linarith

lemma packed_size_fits:
  assumes "1 \<le> w"
      and "4 * w * h < 2 ^ 32 \<or> (w < 65536 \<and> h < 65536)"
  shows "(w + 7) div 8 * h < (2::nat) ^ 32"
  using assms(2)
proof
  assume small: "4 * w * h < 2 ^ 32"
  have "(w + 7) div 8 \<le> w"
    using assms(1) by linarith
  then have "(w + 7) div 8 * h \<le> w * h"
    by (rule mult_le_mono1)
  also have "\<dots> \<le> 4 * w * h"
    by simp
  finally show ?thesis
    using small by linarith
next
  assume sides: "w < 65536 \<and> h < 65536"
  then have "(w + 7) div 8 \<le> 8192" "h \<le> 65535"
    by linarith+
  then have "(w + 7) div 8 * h \<le> 8192 * 65535"
    by (rule mult_le_mono)
  then show ?thesis
    by simp
qed

text \<open>
  Claim C2. For an \<^verbatim>\<open>ImageData\<close> of width \<open>w \<ge> 1\<close> and height \<open>h \<ge> 1\<close> with its
  \<open>4 * w * h\<close> bytes of data, \<open>imageDataToXtg\<close> gives 22 header bytes followed by
  exactly \<open>ceil (w/8) * h\<close> body bytes; bit \<open>7 - x mod 8\<close> of body byte
  \<open>y * ceil (w/8) + floor (x/8)\<close> is set exactly when the red channel of pixel \<open>(x, y)\<close>
  is at least 128; and the 32-bit \<^verbatim>\<open>dataSize\<close> field at byte 10 holds \<open>ceil (w/8) * h\<close>.
  The image is one that the code can be given: its data array has fewer than \<open>2^32\<close>
  bytes, or both its sides are below 65536, the range of the header's 16-bit
  \<^verbatim>\<open>width\<close> and \<^verbatim>\<open>height\<close> fields (every caller passes the \<^verbatim>\<open>getImageData\<close> of a canvas
  of the target size).
\<close>

theorem imageDataToXtg_layout:
  assumes "1 \<le> width img" and "1 \<le> height img"
      and "length (data img) = 4 * width img * height img"
      and "length (data img) < 2 ^ 32 \<or> (width img < 65536 \<and> height img < 65536)"
  defines "rowBytes \<equiv> (width img + 7) div 8"
  defines "out \<equiv> imageDataToXtg img"
  shows "rowBytes = nat \<lceil>real (width img) / 8\<rceil>
       \<and> length out = 22 + rowBytes * height img
       \<and> (\<forall>y < height img. \<forall>x < width img.
             bit (out ! (22 + (y * rowBytes + x div 8))) (7 - x mod 8)
               \<longleftrightarrow> 128 \<le> data img ! ((y * width img + x) * 4))
       \<and> getUint32 out 10 = rowBytes * height img"
proof -
  have ceil: "rowBytes = nat \<lceil>real (width img) / 8\<rceil>"
    unfolding rowBytes_def by (rule rowBytes_ceiling)
  have len: "length out = 22 + rowBytes * height img"
    by (simp add: out_def rowBytes_def length_imageDataToXtg)
  have present: "(y * width img + x) * 4 < length (data img)"
    if "y < height img" "x < width img" for x y
  proof -
    have "y * width img + x < Suc y * width img"
      using that(2) by simp
    also have "\<dots> \<le> height img * width img"
      using that(1) by (intro mult_le_mono1) simp
    finally show ?thesis
      using assms(3) by (simp add: mult.commute)
  qed
  have bits: "\<forall>y < height img. \<forall>x < width img.
      bit (out ! (22 + (y * rowBytes + x div 8))) (7 - x mod 8)
        \<longleftrightarrow> 128 \<le> data img ! ((y * width img + x) * 4)"
  proof (intro allI impI)
    fix y x
    assume y: "y < height img" and x: "x < width img"
    have "bit (out ! (22 + (y * rowBytes + x div 8))) (7 - x mod 8) \<longleftrightarrow> redAtLeast128 img y x"
      unfolding out_def rowBytes_def imageDataToXtg_body using x y by (rule packed_bit)
    also have "\<dots> \<longleftrightarrow> 128 \<le> data img ! ((y * width img + x) * 4)"
      using present [OF y x] by (simp add: redAtLeast128_def)
    finally show "bit (out ! (22 + (y * rowBytes + x div 8))) (7 - x mod 8)
        \<longleftrightarrow> 128 \<le> data img ! ((y * width img + x) * 4)" .
  qed
  have "4 * width img * height img < 2 ^ 32 \<or> (width img < 65536 \<and> height img < 65536)"
    using assms(3,4) by simp
  with assms(1) have "rowBytes * height img < 2 ^ 32"
    unfolding rowBytes_def by (rule packed_size_fits)
  moreover have "getUint32 out 10 = (rowBytes * height img) mod 2 ^ 32"
    unfolding out_def rowBytes_def by (rule imageDataToXtg_dataSize)
  ultimately have size: "getUint32 out 10 = rowBytes * height img"
    by simp
  show ?thesis
    using ceil len bits size by blast
qed

theorem imageDataToXtg_layout_witness:
  "1 \<le> width twoPixels \<and> 1 \<le> height twoPixels
   \<and> length (data twoPixels) = 4 * width twoPixels * height twoPixels
   \<and> length (data twoPixels) < 2 ^ 32 \<and> width twoPixels < 65536 \<and> height twoPixels < 65536
   \<and> imageDataToXtg twoPixels
       = [0x58, 0x54, 0x47, 0, 2, 0, 1, 0, 0, 0, 1, 0, 0, 0, 128, 0, 0, 0, 0, 0, 0, 0, 128]
   \<and> length (imageDataToXtg twoPixels) = 23
   \<and> bit (imageDataToXtg twoPixels ! 22) 7 \<and> \<not> bit (imageDataToXtg twoPixels ! 22) 6
   \<and> getUint32 (imageDataToXtg twoPixels) 10 = 1"
proof -
  have dims: "width twoPixels = 2" "height twoPixels = 1"
      "data twoPixels = [200, 0, 0, 255, 10, 0, 0, 255]"
    by (simp_all add: twoPixels_def)
  have hyps: "1 \<le> width twoPixels" "1 \<le> height twoPixels"
      "length (data twoPixels) = 4 * width twoPixels * height twoPixels"
      "length (data twoPixels) < 2 ^ 32 \<or> (width twoPixels < 65536 \<and> height twoPixels < 65536)"
    by (simp_all add: dims)
  have small: "length (data twoPixels) < 2 ^ 32" "width twoPixels < 65536"
      "height twoPixels < 65536"
    by (simp_all add: dims)
  have out: "imageDataToXtg twoPixels
       = [0x58, 0x54, 0x47, 0, 2, 0, 1, 0, 0, 0, 1, 0, 0, 0, 128, 0, 0, 0, 0, 0, 0, 0, 128]"
    by code_simp
  note layout = imageDataToXtg_layout [OF hyps]
  have len: "length (imageDataToXtg twoPixels) = 23"
    using layout [THEN conjunct2, THEN conjunct1] by (simp add: dims)
  have size: "getUint32 (imageDataToXtg twoPixels) 10 = 1"
    using layout [THEN conjunct2, THEN conjunct2, THEN conjunct2]
    by (simp add: dims)
  note bits = layout [THEN conjunct2, THEN conjunct2, THEN conjunct1, rule_format]
  have "bit (imageDataToXtg twoPixels ! (22 + (0 * ((width twoPixels + 7) div 8) + 0 div 8)))
          (7 - 0 mod 8) \<longleftrightarrow> 128 \<le> data twoPixels ! ((0 * width twoPixels + 0) * 4)"
    by (rule bits) (simp_all add: dims)
  then have light: "bit (imageDataToXtg twoPixels ! 22) 7"
    by (simp add: dims)
  have "bit (imageDataToXtg twoPixels ! (22 + (0 * ((width twoPixels + 7) div 8) + 1 div 8)))
          (7 - 1 mod 8) \<longleftrightarrow> 128 \<le> data twoPixels ! ((0 * width twoPixels + 1) * 4)"
    by (rule bits) (simp_all add: dims)
  then have dark: "\<not> bit (imageDataToXtg twoPixels ! 22) 6"
    by (simp add: dims)
  show ?thesis
    using hyps(1,2,3) small out len light dark size by blast
qed

section \<open>Layout of the container\<close>

lemma length_indexEntry: "length (indexEntry off sz) = 16"
  by (simp add: indexEntry_def)

lemma indexTable_Cons:
  "indexTable rel (blob # blobs) = indexEntry rel (length blob) @ indexTable (rel + length blob) blobs"
  by (simp add: indexEntry_def)

lemma indexTable_entry:
  assumes "i < length blobs"
  shows "take 16 (drop (i * 16) (indexTable rel blobs @ rest))
           = indexEntry (rel + sum_list (map length (take i blobs))) (length (blobs ! i))"
  using assms
proof (induction blobs arbitrary: i rel)
  case Nil
  then show ?case by simp
next
  case (Cons blob blobs)
  show ?case
  proof (cases i)
    case 0
    then show ?thesis
      by (simp only: indexTable_Cons) (simp add: length_indexEntry)
  next
    case (Suc k)
    then have k: "k < length blobs" using Cons.prems by simp
    have "drop (i * 16) (indexTable rel (blob # blobs) @ rest)
            = drop (k * 16) (indexTable (rel + length blob) blobs @ rest)"
      unfolding indexTable_Cons Suc by (simp add: length_indexEntry)
    then show ?thesis
      using Cons.IH [OF k, of "rel + length blob"] by (simp add: Suc add.assoc)
  qed
qed

lemma entry_fields:
  "leNat (take 8 (indexEntry off sz @ rest)) = off mod 2 ^ 64"
  "leNat (take 4 (drop 8 (indexEntry off sz @ rest))) = sz mod 2 ^ 32"
  by (simp_all add: indexEntry_def leNat_setBigUint64 leNat_setUint32)

lemma concat_blob:
  assumes "i < length blobs"
  shows "take (length (blobs ! i)) (drop (sum_list (map length (take i blobs))) (concat blobs @ rest))
           = blobs ! i"
  using assms
proof (induction blobs arbitrary: i)
  case Nil
  then show ?case by simp
next
  case (Cons blob blobs)
  then show ?case by (cases i) simp_all
qed


lemma buildXtcBuffer_parts:
  "buildXtcBuffer blobs =
     xtcHeader (length blobs) 48 (48 + length blobs * 16)
     @ indexTable (48 + length blobs * 16) blobs @ concat blobs"
  by (simp add: buildXtcBuffer_def Let_def)

lemma drop_header:
  "drop (48 + k) (xtcHeader n i d @ rest) = drop k rest"
  by (simp add: length_xtcHeader)

lemma buffer_pageCount: "getUint16 (buildXtcBuffer blobs) 6 = length blobs mod 2 ^ 16"
  unfolding buildXtcBuffer_parts by (rule header_pageCount)

lemma buffer_indexOffset: "getBigUint64 (buildXtcBuffer blobs) 24 = 48"
  unfolding buildXtcBuffer_parts by (simp add: header_indexOffset)

lemma buffer_dataOffset:
  "getBigUint64 (buildXtcBuffer blobs) 32 = (48 + length blobs * 16) mod 2 ^ 64"
  unfolding buildXtcBuffer_parts by (rule header_dataOffset)

lemma buffer_entry:
  assumes "i < length blobs"
  shows "take 16 (drop (48 + i * 16) (buildXtcBuffer blobs))
           = indexEntry (48 + length blobs * 16 + sum_list (map length (take i blobs)))
               (length (blobs ! i))"
  unfolding buildXtcBuffer_parts drop_header using assms by (rule indexTable_entry)

lemma take_take_drop: "take 8 (drop off buf) = take 8 (take 16 (drop off buf))"
  by simp

lemma take_drop_take_drop:
  "take 4 (drop (off + 8) buf) = take 4 (drop 8 (take 16 (drop off buf)))"
  by (simp add: drop_take add.commute)

lemma buffer_entryOffset:
  assumes "i < length blobs"
  shows "entryOffset (buildXtcBuffer blobs) i
           = (48 + length blobs * 16 + sum_list (map length (take i blobs))) mod 2 ^ 64"
proof -
  have "entryOffset (buildXtcBuffer blobs) i = getBigUint64 (buildXtcBuffer blobs) (48 + i * 16)"
    by (simp only: entryOffset_def buffer_indexOffset)
  also have "\<dots> = leNat (take 8 (take 16 (drop (48 + i * 16) (buildXtcBuffer blobs))))"
    unfolding getBigUint64_def by (subst take_take_drop) (rule refl)
  also have "\<dots> = (48 + length blobs * 16 + sum_list (map length (take i blobs))) mod 2 ^ 64"
    unfolding buffer_entry [OF assms] using entry_fields(1) [of _ _ "[]"] by simp
  finally show ?thesis .
qed

lemma buffer_entrySize:
  assumes "i < length blobs"
  shows "entrySize (buildXtcBuffer blobs) i = length (blobs ! i) mod 2 ^ 32"
proof -
  have "entrySize (buildXtcBuffer blobs) i = getUint32 (buildXtcBuffer blobs) (48 + i * 16 + 8)"
    by (simp only: entrySize_def buffer_indexOffset)
  also have "\<dots> = leNat (take 4 (drop 8 (take 16 (drop (48 + i * 16) (buildXtcBuffer blobs)))))"
    unfolding getUint32_def by (subst take_drop_take_drop) (rule refl)
  also have "\<dots> = length (blobs ! i) mod 2 ^ 32"
    unfolding buffer_entry [OF assms] using entry_fields(2) [of _ _ "[]"] by simp
  finally show ?thesis .
qed

lemma buffer_page_data:
  assumes "i < length blobs"
  shows "take (length (blobs ! i))
           (drop (48 + length blobs * 16 + sum_list (map length (take i blobs)))
              (buildXtcBuffer blobs))
           = blobs ! i"
proof -
  have "drop (48 + length blobs * 16 + sum_list (map length (take i blobs)))
          (buildXtcBuffer blobs)
        = drop (sum_list (map length (take i blobs))) (concat blobs)"
    unfolding buildXtcBuffer_parts
    by (simp add: length_xtcHeader length_indexTable)
  then show ?thesis
    using concat_blob [OF assms, of "[]"] by simp
qed

lemma sum_list_same_length:
  assumes "\<forall>b\<in>set blobs. length b = L"
  shows "sum_list (map length blobs) = length blobs * L"
  using assms by (induction blobs) simp_all

lemma length_getImageData_blob:
  "length (imageDataToXtg (getImageData c TARGET_WIDTH TARGET_HEIGHT)) = 48022"
  by (simp add: length_imageDataToXtg getImageData_def TARGET_WIDTH_def TARGET_HEIGHT_def)

lemma xtgBlobsOf_lengths: "\<forall>b\<in>set (xtgBlobsOf pages). length b = 48022"
  by (auto simp add: xtgBlobsOf_def length_getImageData_blob)

lemma length_xtgBlobsOf: "length (xtgBlobsOf pages) = length pages"
  by (simp add: xtgBlobsOf_def)

lemma xtgBlobsOf_prefix_sum:
  assumes "i \<le> length pages"
  shows "sum_list (map length (take i (xtgBlobsOf pages))) = i * 48022"
proof -
  have "\<forall>b\<in>set (take i (xtgBlobsOf pages)). length b = 48022"
    using xtgBlobsOf_lengths [of pages] by (meson in_set_takeD)
  from sum_list_same_length [OF this] show ?thesis
    using assms by (simp add: length_xtgBlobsOf)
qed

text \<open>
  Claim C1, as the code has it. For 1 to 65535 pages the container of \<open>buildXtc\<close> has
  \<open>indexOffset = 48\<close> at byte 24, \<open>dataOffset = indexOffset + pageCount * 16\<close> at byte 32
  and the number of pages as \<open>pageCount\<close> at byte 6; its length is \<open>dataOffset\<close> plus
  the lengths of the pages. The offset field of index entry \<open>i\<close> is an offset from the
  start of the buffer: \<open>dataOffset\<close> plus the lengths of pages \<open>0, ..., i - 1\<close>; the size
  field is the length of page \<open>i\<close>; \<open>offset + size\<close> is at most the length of the buffer;
  and the bytes of page \<open>i\<close> stand at that offset.
\<close>

theorem buildXtc_structure:
  fixes pages :: "'a CanvasPage_scheme list"
  assumes "pages \<noteq> []" and "length pages < 65536"
  defines "buf \<equiv> buildXtc pages"
  defines "blobs \<equiv> xtgBlobsOf pages"
  defines "dataOffset \<equiv> getBigUint64 buf 32"
  shows "getBigUint64 buf 24 = 48
       \<and> dataOffset = getBigUint64 buf 24 + getUint16 buf 6 * 16
       \<and> getUint16 buf 6 = length pages
       \<and> length buf = dataOffset + sum_list (map length blobs)
       \<and> (\<forall>i < length pages.
             entryOffset buf i = dataOffset + sum_list (map length (take i blobs))
           \<and> entrySize buf i = length (blobs ! i)
           \<and> entryOffset buf i + entrySize buf i \<le> length buf
           \<and> take (entrySize buf i) (drop (entryOffset buf i) buf) = blobs ! i)"
proof -
  let ?n = "length pages"
  have buf: "buf = buildXtcBuffer blobs"
    by (simp add: buf_def blobs_def buildXtc_def)
  have n: "length blobs = ?n"
    by (simp add: blobs_def length_xtgBlobsOf)
  have index: "getBigUint64 buf 24 = 48"
    unfolding buf by (rule buffer_indexOffset)
  have "(48 + ?n * 16) mod 2 ^ 64 = 48 + ?n * 16"
    using assms(2) by simp
  then have data: "dataOffset = 48 + ?n * 16"
    unfolding dataOffset_def buf buffer_dataOffset n by simp
  have count: "getUint16 buf 6 = ?n"
    unfolding buf buffer_pageCount n using assms(2) by simp
  have total: "sum_list (map length blobs) = ?n * 48022"
    using xtgBlobsOf_prefix_sum [of ?n pages] by (simp add: blobs_def length_xtgBlobsOf)
  have len: "length buf = dataOffset + sum_list (map length blobs)"
    unfolding buf length_buildXtcBuffer data n by simp
  have entries: "\<forall>i < ?n.
        entryOffset buf i = dataOffset + sum_list (map length (take i blobs))
      \<and> entrySize buf i = length (blobs ! i)
      \<and> entryOffset buf i + entrySize buf i \<le> length buf
      \<and> take (entrySize buf i) (drop (entryOffset buf i) buf) = blobs ! i"
  proof (intro allI impI)
    fix i
    assume i: "i < ?n"
    then have i': "i < length blobs"
      by (simp add: n)
    have before: "sum_list (map length (take i blobs)) = i * 48022"
      unfolding blobs_def using i by (intro xtgBlobsOf_prefix_sum) simp
    have this_page: "length (blobs ! i) = 48022"
      using xtgBlobsOf_lengths [of pages] i' by (simp add: blobs_def)
    have "48 + ?n * 16 + i * 48022 < 2 ^ 64"
      using i assms(2) by simp
    then have off: "entryOffset buf i = dataOffset + sum_list (map length (take i blobs))"
      unfolding buf buffer_entryOffset [OF i'] n before data by simp
    have size: "entrySize buf i = length (blobs ! i)"
      unfolding buf buffer_entrySize [OF i'] this_page by simp
    have "Suc i * 48022 \<le> ?n * 48022"
      using i by (intro mult_le_mono1) simp
    then have bound: "entryOffset buf i + entrySize buf i \<le> length buf"
      unfolding off size len total before this_page by simp
    have bytes: "take (entrySize buf i) (drop (entryOffset buf i) buf) = blobs ! i"
      unfolding off size data unfolding buf n [symmetric] using i' by (rule buffer_page_data)
    show "entryOffset buf i = dataOffset + sum_list (map length (take i blobs))
      \<and> entrySize buf i = length (blobs ! i)
      \<and> entryOffset buf i + entrySize buf i \<le> length buf
      \<and> take (entrySize buf i) (drop (entryOffset buf i) buf) = blobs ! i"
      using off size bound bytes by blast
  qed
  have offsets: "dataOffset = getBigUint64 buf 24 + getUint16 buf 6 * 16"
    by (simp add: index count data)
  show ?thesis
    using index offsets count len entries by blast
qed

theorem buildXtc_structure_witness:
  "onePage \<noteq> [] \<and> length onePage < 65536
   \<and> getBigUint64 (buildXtc onePage) 24 = 48
   \<and> getBigUint64 (buildXtc onePage) 32 = 64
   \<and> getUint16 (buildXtc onePage) 6 = 1
   \<and> length (buildXtc onePage) = 48086
   \<and> entryOffset (buildXtc onePage) 0 = 64
   \<and> entrySize (buildXtc onePage) 0 = 48022"
proof -
  have hyps: "onePage \<noteq> []" "length onePage < 65536"
    by (simp_all add: onePage_def)
  have one: "length onePage = 1"
    by (simp add: onePage_def)
  have blob: "length (xtgBlobsOf onePage ! 0) = 48022"
    "sum_list (map length (xtgBlobsOf onePage)) = 48022"
    by (simp_all add: onePage_def xtgBlobsOf_def length_getImageData_blob)
  note layout = buildXtc_structure [OF hyps]
  have index: "getBigUint64 (buildXtc onePage) 24 = 48"
    using layout by blast
  have count: "getUint16 (buildXtc onePage) 6 = 1"
    using layout [THEN conjunct2, THEN conjunct2, THEN conjunct1] one by simp
  have data: "getBigUint64 (buildXtc onePage) 32 = 64"
    using layout [THEN conjunct2, THEN conjunct1] index count by simp
  have len: "length (buildXtc onePage) = 48086"
    using layout [THEN conjunct2, THEN conjunct2, THEN conjunct2, THEN conjunct1] data blob(2)
    by simp
  note entry = layout [THEN conjunct2, THEN conjunct2, THEN conjunct2, THEN conjunct2,
    rule_format, of 0]
  have off: "entryOffset (buildXtc onePage) 0 = 64"
    using entry [THEN conjunct1] one data by simp
  have size: "entrySize (buildXtc onePage) 0 = 48022"
    using entry [THEN conjunct2, THEN conjunct1] one blob(1) by simp
  show ?thesis
    using hyps index data count len off size by blast
qed

text \<open>
  In the container of one page the offset field of entry 0 is 64, the \<open>dataOffset\<close>, not
  0, the sum of the lengths of no pages; and \<open>offset + size = 48086\<close> exceeds the length
  of the buffer less \<open>dataOffset\<close>, which is 48022.
\<close>

theorem buildXtc_relative_offset_counterexample:
  "onePage \<noteq> []
   \<and> entryOffset (buildXtc onePage) 0 = 64
   \<and> sum_list (map length (take 0 (xtgBlobsOf onePage))) = 0
   \<and> entryOffset (buildXtc onePage) 0 \<noteq> sum_list (map length (take 0 (xtgBlobsOf onePage)))
   \<and> \<not> entryOffset (buildXtc onePage) 0 + entrySize (buildXtc onePage) 0
         \<le> length (buildXtc onePage) - getBigUint64 (buildXtc onePage) 32"
proof -
  have blobs: "length (xtgBlobsOf onePage) = 1" "length (xtgBlobsOf onePage ! 0) = 48022"
    "sum_list (map length (xtgBlobsOf onePage)) = 48022"
    by (simp_all add: onePage_def xtgBlobsOf_def length_getImageData_blob)
  have i: "0 < length (xtgBlobsOf onePage)"
    by (simp add: blobs)
  have off: "entryOffset (buildXtc onePage) 0 = 64"
    unfolding buildXtc_def buffer_entryOffset [OF i] by (simp add: blobs)
  have size: "entrySize (buildXtc onePage) 0 = 48022"
    unfolding buildXtc_def buffer_entrySize [OF i] by (simp add: blobs)
  have len: "length (buildXtc onePage) = 48086"
    unfolding buildXtc_def length_buildXtcBuffer by (simp add: blobs)
  have data: "getBigUint64 (buildXtc onePage) 32 = 64"
    unfolding buildXtc_def buffer_dataOffset by (simp add: blobs)
  show ?thesis
    by (simp add: off size len data) (simp add: onePage_def)
qed

section \<open>The order of the generated names\<close>

lemma digitChar_less: "a < b \<Longrightarrow> b < 10 \<Longrightarrow> digitChar a < digitChar b"
  by (simp add: digitChar_def less_char_def)

lemma length_fixedDigits: "length (fixedDigits k n) = k"
  by (induction k arbitrary: n) simp_all

lemma digitChar_0: "digitChar 0 = CHR ''0''"
  by code_simp

lemma fixedDigits_zero: "fixedDigits k 0 = replicate k (CHR ''0'')"
  by (induction k) (simp_all add: digitChar_0 replicate_append_same)

lemma list_less_snoc:
  fixes xs ys :: "'a::linorder list"
  assumes "length xs = length ys" and "xs < ys \<or> (xs = ys \<and> a < b)"
  shows "xs @ [a] < ys @ [b]"
  using assms(2)
proof
  assume "xs < ys"
  then have "(xs, ys) \<in> lexord {(u, v). u < v}"
    by (simp add: list_less_def)
  then have "(xs @ [a], ys @ [b]) \<in> lexord {(u, v). u < v}"
    using assms(1) by (intro lexord_sufI) simp_all
  then show ?thesis by (simp add: list_less_def)
next
  assume "xs = ys \<and> a < b"
  then show ?thesis by (simp add: list_less_def lexord_same_pref_iff)
qed

lemma fixedDigits_mono:
  assumes "q < 10 ^ k" "p < q"
  shows "fixedDigits k p < fixedDigits k q"
  using assms
proof (induction k arbitrary: p q)
  case 0
  then show ?case by simp
next
  case (Suc k)
  have q: "q div 10 < 10 ^ k"
    using Suc.prems(1) by (simp add: less_mult_imp_div_less mult.commute)
  have "p div 10 < q div 10 \<or> (p div 10 = q div 10 \<and> p mod 10 < q mod 10)"
    using Suc.prems(2) by (metis div_le_mono less_imp_le_nat mod_div_decomp nat_add_left_cancel_less order_le_less)
  then have "fixedDigits k (p div 10) < fixedDigits k (q div 10)
      \<or> (fixedDigits k (p div 10) = fixedDigits k (q div 10)
          \<and> digitChar (p mod 10) < digitChar (q mod 10))"
    using Suc.IH [OF q] by (auto intro: digitChar_less)
  then show ?case
    by (simp add: list_less_snoc length_fixedDigits)
qed

lemma padStart_String_of:
  assumes "n < 10 ^ k" "0 < k"
  shows "padStart k (CHR ''0'') (String_of n) = fixedDigits k n"
  using assms
proof (induction n arbitrary: k rule: String_of.induct)
  case (1 n)
  obtain j where k: "k = Suc j"
    using "1.prems"(2) by (cases k) auto
  show ?case
  proof (cases "n < 10")
    case True
    then have "String_of n = [digitChar n]"
      by (subst String_of.simps) simp
    then show ?thesis
      using True by (simp add: padStart_def k fixedDigits_zero)
  next
    case False
    then have s: "String_of n = String_of (n div 10) @ [digitChar (n mod 10)]"
      by (subst String_of.simps) simp
    have "0 < j"
      using False "1.prems"(1) k by (cases j) auto
    moreover have "n div 10 < 10 ^ j"
      using "1.prems"(1) k by (simp add: less_mult_imp_div_less mult.commute)
    ultimately have "padStart j (CHR ''0'') (String_of (n div 10)) = fixedDigits j (n div 10)"
      using "1.IH" False by simp
    then show ?thesis
      unfolding s k by (simp add: padStart_def)
  qed
qed

lemma pagePrefix_fixed:
  "n \<le> 9999 \<Longrightarrow> padStart 4 (CHR ''0'') (String_of n) = fixedDigits 4 n"
  by (rule padStart_String_of) simp_all

lemma pageName_prefix: "pageName p k s = pagePrefix p @ (''_'' @ k @ ''_'' @ s @ ''.png'')"
  by (simp add: pageName_def pagePrefix_def)

lemma pagePrefix_less:
  assumes "p < q" "q \<le> 9999"
  shows "pagePrefix p @ r < pagePrefix q @ r'"
proof -
  have "fixedDigits 4 p < fixedDigits 4 q"
    using assms by (intro fixedDigits_mono) simp_all
  then have "(fixedDigits 4 p, fixedDigits 4 q) \<in> lexord {(u, v). u < v}"
    by (simp add: list_less_def)
  then have "(fixedDigits 4 p @ r, fixedDigits 4 q @ r') \<in> lexord {(u, v). u < v}"
    by (rule lexord_sufI) (simp add: length_fixedDigits)
  then show ?thesis
    using assms by (simp add: pagePrefix_def pagePrefix_fixed list_less_def)
qed

lemma pageName_less:
  assumes "p < q" "q \<le> 9999"
  shows "pageName p k s < pageName q k' s'"
  unfolding pageName_prefix using assms by (rule pagePrefix_less)

lemma same_prefix_less: "ys < zs \<Longrightarrow> xs @ ys < xs @ zs" for xs :: string
  by (simp add: list_less_def lexord_same_pref_iff)

lemma pageName_letter_less:
  assumes "i < j" "j < 159"
  shows "pageName p ''3'' (fromCharCode (97 + i)) < pageName p ''3'' (fromCharCode (97 + j))"
proof -
  have "char_of (97 + i) < (char_of (97 + j) :: char)"
    using assms by (simp add: less_char_def)
  then have "''_3_'' @ fromCharCode (97 + i) @ ''.png'' < ''_3_'' @ fromCharCode (97 + j) @ ''.png''"
    by (simp add: fromCharCode_def)
  then show ?thesis
    unfolding pageName_prefix by (intro same_prefix_less) simp
qed

lemma pageName_half_less: "pageName p ''2'' ''a'' < pageName p ''2'' ''b''"
  unfolding pageName_prefix by (intro same_prefix_less) simp

lemma map_fst_zip_eq:
  "length xs = length ys \<Longrightarrow> map (\<lambda>x. f (fst x)) (zip xs ys) = map f xs"
  by (induction xs ys rule: list_induct2) simp_all

lemma name_extractAndRotate: "name (extractAndRotate nm a b c d r) = nm"
  by (simp add: extractAndRotate_def)

lemma overlap_names:
  "map name (map (\<lambda>(idx, seg). extractAndRotate (pageName p ''3'' (fromCharCode (97 + idx)))
       (seg_x seg) (seg_y seg) (seg_w seg) (seg_h seg) r) (enumerate 0 ss))
     = map (\<lambda>idx. pageName p ''3'' (fromCharCode (97 + idx))) [0 ..< length ss]"
  using map_fst_zip_eq [of "[0 ..< length ss]" ss
      "\<lambda>idx. pageName p ''3'' (fromCharCode (97 + idx))"]
  by (simp add: enumerate_eq_zip name_extractAndRotate comp_def split_def)

lemma processLoadedImage_names:
  fixes options :: "'a ConversionOptions_scheme" and w h :: int
  defines "crop \<equiv> getAxisCropRect w h options"
  shows "map name (processLoadedImage segs w h p options) \<in>
     {[pageName p ''0'' ''page''], [pageName p ''0'' ''spread''],
      [pageName p ''2'' ''a'', pageName p ''2'' ''b''],
      map (\<lambda>idx. pageName p ''3'' (fromCharCode (97 + idx)))
        [0 ..< length (segs (rect_width crop) (rect_height crop))]}"
  unfolding processLoadedImage_def Let_def crop_def
  by (simp add: overlap_names name_extractAndRotate del: map_map)

lemma sorted_page_names:
  fixes options :: "'a ConversionOptions_scheme"
  assumes "\<forall>a b. length (segs a b) \<le> 26"
  shows "sorted_wrt (<) (map name (processLoadedImage segs w h p options))"
proof -
  let ?m = "length (segs (rect_width (getAxisCropRect w h options))
                         (rect_height (getAxisCropRect w h options)))"
  have m: "?m \<le> 26"
    using assms by simp
  have "sorted_wrt (<) (map (\<lambda>idx. pageName p ''3'' (fromCharCode (97 + idx))) [0 ..< ?m])"
    unfolding sorted_wrt_map
    by (rule sorted_wrt_mono_rel [of _ "(<)"]) (use m in \<open>auto intro!: pageName_letter_less\<close>)
  then show ?thesis
    using processLoadedImage_names [of segs w h p options] pageName_half_less [of p]
    by auto
qed

lemma names_of_page:
  fixes options :: "'a ConversionOptions_scheme"
  assumes "nm \<in> set (map name (processLoadedImage segs w h p options))"
  shows "\<exists>k s. nm = pageName p k s"
proof -
  let ?ns = "map name (processLoadedImage segs w h p options)"
  let ?m = "length (segs (rect_width (getAxisCropRect w h options))
                         (rect_height (getAxisCropRect w h options)))"
  from processLoadedImage_names [of segs w h p options]
  consider "?ns = [pageName p ''0'' ''page'']" | "?ns = [pageName p ''0'' ''spread'']"
    | "?ns = [pageName p ''2'' ''a'', pageName p ''2'' ''b'']"
    | "?ns = map (\<lambda>idx. pageName p ''3'' (fromCharCode (97 + idx))) [0 ..< ?m]"
    by blast
  then show ?thesis
  proof cases
    case 1
    with assms have "nm \<in> set [pageName p ''0'' ''page'']" by (simp only:)
    then show ?thesis by auto
  next
    case 2
    with assms have "nm \<in> set [pageName p ''0'' ''spread'']" by (simp only:)
    then show ?thesis by auto
  next
    case 3
    with assms have "nm \<in> set [pageName p ''2'' ''a'', pageName p ''2'' ''b'']" by (simp only:)
    then show ?thesis by auto
  next
    case 4
    with assms have "nm \<in> set (map (\<lambda>idx. pageName p ''3'' (fromCharCode (97 + idx))) [0 ..< ?m])"
      by (simp only:)
    then show ?thesis by auto
  qed
qed

lemma sorted_concat_pages:
  assumes n: "n \<le> 9999"
      and pages: "\<forall>i<n. sorted_wrt (<) (f i) \<and> (\<forall>nm\<in>set (f i). \<exists>k s. nm = pageName (Suc i) k s)"
  shows "sorted_wrt (<) (concat (map f [0 ..< n]))"
  using assms
proof (induction n)
  case 0
  then show ?case by simp
next
  case (Suc n)
  have earlier: "sorted_wrt (<) (concat (map f [0 ..< n]))"
    using Suc by simp
  have last: "sorted_wrt (<) (f n)"
    using Suc.prems by simp
  have cross: "x < y" if xin: "x \<in> set (concat (map f [0 ..< n]))" and yin: "y \<in> set (f n)" for x y
  proof -
    from xin obtain i where i: "i < n" "x \<in> set (f i)"
      by auto
    then obtain k s where x: "x = pageName (Suc i) k s"
      using Suc.prems(2) by (metis less_Suc_eq)
    obtain k' s' where y: "y = pageName (Suc n) k' s'"
      using yin Suc.prems(2) by (metis lessI)
    show ?thesis
      unfolding x y using i(1) Suc.prems(1) by (intro pageName_less) simp_all
  qed
  show ?case
    using earlier last cross by (simp add: sorted_wrt_append)
qed


lemma map_name_sortByName: "map name (sortByName pages) = sort (map name pages)"
proof -
  have "sort (map name pages) = map name (sort_key name pages)"
    by (rule properties_for_sort) simp_all
  then show ?thesis
    by (simp add: sortByName_def)
qed

lemma sortByName_permutation:
  assumes "mset qs = mset ps" "distinct (map name ps)"
  shows "sortByName qs = sortByName ps"
proof -
  have "mset qs = mset (sort_key name ps)"
    using assms(1) by simp
  moreover have "inj_on name (set qs)"
    using assms by (metis distinct_map mset_eq_setD)
  moreover have "sorted (map name (sort_key name ps))"
    by simp
  ultimately show ?thesis
    unfolding sortByName_def by (rule sort_key_inj_key_eq)
qed

lemma finalizeConversionResult_sorted:
  "finalizeConversionResult build adjust outputName pages ctx md previews
     = \<lparr> resultName = outputName,
         resultData = build (map xtg (sortByName pages))
           (if toc md \<noteq> [] then md\<lparr> toc := adjust (toc md) ctx \<rparr> else md),
         resultSize = length (build (map xtg (sortByName pages))
           (if toc md \<noteq> [] then md\<lparr> toc := adjust (toc md) ctx \<rparr> else md)),
         resultPageCount = length pages, resultPageImages = previews,
         resultPreviewMode = ''sparse'' \<rparr>"
  by (simp add: finalizeConversionResult_def Let_def sortByName_def)

text \<open>
  Claim C4. \<open>finalizeConversionResult\<close> sorts the pages by name and hands the container
  builder the contents of the pages in that sorted order: the names it builds from are
  the sorted names of the pages it was given, and the pages are the same pages. For up to
  9999 source pages, numbered from 1, each contributing the names of
  \<open>processLoadedImage\<close> (at most 26 overlap segments, the letters a to z) or none, the
  names in generation order are strictly increasing; so whatever the order in which the
  generated pages completed, sorting puts them back in generation order, and the
  container is built from the pages in generation order. And
  \<open>0001_2_a.png < 0001_2_b.png < 0002_0_spread.png\<close>.
\<close>

theorem final_order_by_name:
  fixes completionOrder generated :: "EncodedPage list"
    and calculateOverlapSegments :: "int \<Rightarrow> int \<Rightarrow> Segment list"
    and imgWidth imgHeight :: "nat \<Rightarrow> int" and optionsOf :: "nat \<Rightarrow> ConversionOptions"
    and md :: BookMetadata and ctx :: PageMappingContext
    and adjust :: "TocEntry list \<Rightarrow> PageMappingContext \<Rightarrow> TocEntry list"
  assumes "mset completionOrder = mset generated"
      and "n \<le> 9999"
      and "\<forall>a b. length (calculateOverlapSegments a b) \<le> 26"
      and "map name generated = concat (map pageNames [0 ..< n])"
      and "\<forall>i<n. pageNames i = []
             \<or> pageNames i = map name (processLoadedImage calculateOverlapSegments
                                 (imgWidth i) (imgHeight i) (Suc i) (optionsOf i))"
  defines "metadata' \<equiv> (if toc md \<noteq> [] then md\<lparr> toc := adjust (toc md) ctx \<rparr> else md)"
  shows "map name (sortByName completionOrder) = sort (map name completionOrder)
       \<and> mset (sortByName completionOrder) = mset completionOrder
       \<and> resultData (finalizeConversionResult build adjust outputName completionOrder ctx md
             previews) = build (map xtg (sortByName completionOrder)) metadata'
       \<and> sorted_wrt (<) (map name generated)
       \<and> sortByName generated = generated
       \<and> sortByName completionOrder = generated
       \<and> finalizeConversionResult build adjust outputName completionOrder ctx md previews
           = \<lparr> resultName = outputName,
               resultData = build (map xtg generated) metadata',
               resultSize = length (build (map xtg generated) metadata'),
               resultPageCount = length generated, resultPageImages = previews,
               resultPreviewMode = ''sparse'' \<rparr>
       \<and> ''0001_2_a.png'' < ''0001_2_b.png'' \<and> ''0001_2_b.png'' < ''0002_0_spread.png''"
proof -
  have names: "map name (sortByName completionOrder) = sort (map name completionOrder)"
    by (rule map_name_sortByName)
  have same: "mset (sortByName completionOrder) = mset completionOrder"
    by (simp add: sortByName_def)
  have built: "resultData (finalizeConversionResult build adjust outputName completionOrder ctx md
      previews) = build (map xtg (sortByName completionOrder)) metadata'"
    by (simp add: finalizeConversionResult_sorted metadata'_def)
  have each: "\<forall>i<n. sorted_wrt (<) (pageNames i)
      \<and> (\<forall>nm\<in>set (pageNames i). \<exists>k s. nm = pageName (Suc i) k s)"
  proof (intro allI impI)
    fix i
    assume "i < n"
    with assms(5) consider "pageNames i = []"
      | "pageNames i = map name (processLoadedImage calculateOverlapSegments
                          (imgWidth i) (imgHeight i) (Suc i) (optionsOf i))"
      by blast
    then show "sorted_wrt (<) (pageNames i)
        \<and> (\<forall>nm\<in>set (pageNames i). \<exists>k s. nm = pageName (Suc i) k s)"
    proof cases
      case 1
      then show ?thesis by simp
    next
      case 2
      show ?thesis
        unfolding 2 using sorted_page_names [OF assms(3)] names_of_page by blast
    qed
  qed
  have increasing: "sorted_wrt (<) (map name generated)"
    unfolding assms(4) using assms(2) each by (rule sorted_concat_pages)
  then have "sorted (map name generated)"
    by (rule strict_sorted_imp_sorted)
  then have unchanged: "sortByName generated = generated"
    unfolding sortByName_def by (rule sort_key_id_if_sorted)
  have "distinct (map name generated)"
    using increasing by (simp add: strict_sorted_iff)
  with assms(1) have "sortByName completionOrder = sortByName generated"
    by (rule sortByName_permutation)
  then have restored: "sortByName completionOrder = generated"
    using unchanged by simp
  have "length completionOrder = length generated"
    using assms(1) by (rule mset_eq_length)
  then have result: "finalizeConversionResult build adjust outputName completionOrder ctx md previews
      = \<lparr> resultName = outputName,
          resultData = build (map xtg generated) metadata',
          resultSize = length (build (map xtg generated) metadata'),
          resultPageCount = length generated, resultPageImages = previews,
          resultPreviewMode = ''sparse'' \<rparr>"
    unfolding finalizeConversionResult_sorted restored metadata'_def by simp
  have example: "''0001_2_a.png'' < ''0001_2_b.png''" "''0001_2_b.png'' < ''0002_0_spread.png''"
    by simp_all
  show ?thesis
    using names same built increasing unchanged restored result example by blast
qed

theorem final_order_by_name_witness:
  "mset threePagesShuffled = mset threePages
   \<and> map name threePages = concat (map twoSourceNames [0 ..< 2])
   \<and> map name threePagesShuffled = [''0002_0_spread.png'', ''0001_2_b.png'', ''0001_2_a.png'']
   \<and> sortByName threePagesShuffled = threePages
   \<and> finalizeConversionResult joinPages (\<lambda>entries ctx. entries) ''book.xtc''
         threePagesShuffled newPageMappingContext noCover []
       = \<lparr> resultName = ''book.xtc'', resultData = [1, 2, 3], resultSize = 3,
           resultPageCount = 3, resultPageImages = [], resultPreviewMode = ''sparse'' \<rparr>"
proof -
  have same: "mset threePagesShuffled = mset threePages"
    by (simp add: threePagesShuffled_def threePages_def)
  have names: "map name threePages = [''0001_2_a.png'', ''0001_2_b.png'', ''0002_0_spread.png'']"
    by (simp add: threePages_def)
  have shuffled: "map name threePagesShuffled
      = [''0002_0_spread.png'', ''0001_2_b.png'', ''0001_2_a.png'']"
    by (simp add: threePagesShuffled_def)
  have n: "(2::nat) \<le> 9999"
    by simp
  have segs: "\<forall>a b. length ((\<lambda>(w::int) (h::int). [] :: Segment list) a b) \<le> 26"
    by simp
  have first: "twoSourceNames 0 = [''0001_2_a.png'', ''0001_2_b.png'']"
    by code_simp
  have second: "twoSourceNames (Suc 0) = [''0002_0_spread.png'']"
    by code_simp
  have gen: "map name threePages = concat (map twoSourceNames [0 ..< 2])"
    unfolding names by (simp add: upt_conv_Cons first second)
  have each: "\<forall>i<2. twoSourceNames i = []
       \<or> twoSourceNames i = map name (processLoadedImage (\<lambda>w h. [])
            ((\<lambda>i. if i = 0 then 4 else 6) i) ((\<lambda>i. if i = 0 then 6 else 4) i) (Suc i)
            ((\<lambda>i. halfOptions) i))"
    by (simp add: twoSourceNames_def)
  note order = final_order_by_name [where md = noCover and adjust = "\<lambda>entries ctx. entries"
      and ctx = newPageMappingContext and build = joinPages and outputName = "''book.xtc''"
      and previews = "[]", OF same n segs gen each]
  have restored: "sortByName threePagesShuffled = threePages"
    using order by blast
  have "finalizeConversionResult joinPages (\<lambda>entries ctx. entries) ''book.xtc''
         threePagesShuffled newPageMappingContext noCover []
       = \<lparr> resultName = ''book.xtc'',
           resultData = joinPages (map xtg threePages)
             (if toc noCover \<noteq> [] then noCover\<lparr> toc := toc noCover \<rparr> else noCover),
           resultSize = length (joinPages (map xtg threePages)
             (if toc noCover \<noteq> [] then noCover\<lparr> toc := toc noCover \<rparr> else noCover)),
           resultPageCount = length threePages, resultPageImages = [],
           resultPreviewMode = ''sparse'' \<rparr>"
    using order by blast
  then have result: "finalizeConversionResult joinPages (\<lambda>entries ctx. entries) ''book.xtc''
         threePagesShuffled newPageMappingContext noCover []
       = \<lparr> resultName = ''book.xtc'', resultData = [1, 2, 3], resultSize = 3,
           resultPageCount = 3, resultPageImages = [], resultPreviewMode = ''sparse'' \<rparr>"
    by (simp add: joinPages_def threePages_def)
  show ?thesis
    using same gen shuffled restored result by blast
qed

section \<open>The first page of an archive conversion\<close>

lemma processImage_names:
  fixes options :: "'a ConversionOptions_scheme"
  shows "map name (processImage segs imgBlob pageNum options) = []
       \<or> (\<exists>w h. map name (processImage segs imgBlob pageNum options)
              = map name (processLoadedImage segs w h pageNum options))"
  by (cases imgBlob) (auto simp add: processImage_def)

lemma convertArchivePages_in_order:
  fixes options :: "'a ConversionOptions_scheme"
  assumes "length imgBlobs \<le> 9999" and "\<forall>a b. length (segs a b) \<le> 26"
  shows "convertArchivePages segs imgBlobs options
       = concat (map (\<lambda>index. processImage segs (imgBlobs ! index) (index + 1)
                        (getPageOptions options index)) [0 ..< length imgBlobs])"
proof -
  let ?f = "\<lambda>index. processImage segs (imgBlobs ! index) (index + 1) (getPageOptions options index)"
  have each: "\<forall>i<length imgBlobs. sorted_wrt (<) (map name (?f i))
      \<and> (\<forall>nm\<in>set (map name (?f i)). \<exists>k s. nm = pageName (Suc i) k s)"
  proof (intro allI impI)
    fix i
    assume "i < length imgBlobs"
    from processImage_names [of segs "imgBlobs ! i" "i + 1" "getPageOptions options i"]
    consider "map name (?f i) = []"
      | w h where "map name (?f i)
          = map name (processLoadedImage segs w h (Suc i) (getPageOptions options i))"
      by auto
    then show "sorted_wrt (<) (map name (?f i))
        \<and> (\<forall>nm\<in>set (map name (?f i)). \<exists>k s. nm = pageName (Suc i) k s)"
    proof cases
      case 1
      then show ?thesis by simp
    next
      case 2
      show ?thesis
        unfolding 2 using sorted_page_names [OF assms(2)] names_of_page by blast
    qed
  qed
  have "sorted_wrt (<) (concat (map (\<lambda>i. map name (?f i)) [0 ..< length imgBlobs]))"
    using assms(1) each by (rule sorted_concat_pages)
  then have "sorted_wrt (<) (map name (concat (map ?f [0 ..< length imgBlobs])))"
    by (simp add: map_concat comp_def)
  then have "sorted (map name (concat (map ?f [0 ..< length imgBlobs])))"
    by (rule strict_sorted_imp_sorted)
  then show ?thesis
    unfolding convertArchivePages_def sortByName_def by (rule sort_key_id_if_sorted)
qed

text \<open>
  Claim C10, as the code has it. The options of the page at processing index 0 of an
  archive conversion have \<^verbatim>\<open>splitMode\<close> \<^verbatim>\<open>nosplit\<close>, for every global split mode;
  \<open>getPageOptions\<close> does not read the metadata, so this holds for whatever page
  \<open>moveCoverToFront\<close> left in front, cover or not. So the page at index 0 is never
  split: when its image loads it gives exactly one output page, of kind 0 and drawn from
  the whole cropped canvas, and when its image does not load it gives none. When the
  image at index 0 loads (in an archive of up to 9999 images, with at most 26 overlap
  segments to a page), its one page is the first page of the output.
\<close>

theorem first_page_never_split:
  fixes options :: "'a ConversionOptions_scheme"
    and calculateOverlapSegments :: "int \<Rightarrow> int \<Rightarrow> Segment list"
    and imgWidth imgHeight :: int and pageNum :: nat
    and imgBlobs :: "(int \<times> int) option list"
  defines "first \<equiv> getPageOptions options 0"
  defines "pages \<equiv> processLoadedImage calculateOverlapSegments imgWidth imgHeight pageNum first"
  defines "crop \<equiv> getAxisCropRect imgWidth imgHeight options"
  shows "splitMode first = ''nosplit''
       \<and> first = options\<lparr> splitMode := ''nosplit'' \<rparr>
       \<and> length pages = 1
       \<and> name (hd pages) = pageName pageNum ''0''
            (if orientation options = Portrait then ''page'' else ''spread'')
       \<and> src_x (hd pages) = 0 \<and> src_y (hd pages) = 0
       \<and> src_w (hd pages) = rect_width crop \<and> src_h (hd pages) = rect_height crop
       \<and> processImage calculateOverlapSegments (Some (imgWidth, imgHeight)) pageNum first = pages
       \<and> processImage calculateOverlapSegments None pageNum first = []
       \<and> (imgBlobs \<noteq> [] \<and> imgBlobs ! 0 = Some (imgWidth, imgHeight)
            \<and> length imgBlobs \<le> 9999 \<and> (\<forall>a b. length (calculateOverlapSegments a b) \<le> 26)
          \<longrightarrow> hd (convertArchivePages calculateOverlapSegments imgBlobs options)
              = extractAndRotate
                  (pageName 1 ''0'' (if orientation options = Portrait then ''page'' else ''spread''))
                  0 0 (rect_width crop) (rect_height crop)
                  (if orientation options = Portrait then 0
                   else if landscapeFlipClockwise options then - 90 else 90))"
proof -
  have mode: "splitMode first = ''nosplit''"
    unfolding first_def by (rule getPageOptions_first)
  have upd: "first = options\<lparr> splitMode := ''nosplit'' \<rparr>"
    by (simp add: first_def getPageOptions_def getPageProcessingOptions_def)
  have same_crop: "getAxisCropRect imgWidth imgHeight first = crop"
    by (simp add: upd crop_def getAxisCropRect_def)
  have orient: "orientation first = orientation options"
    and flip: "landscapeFlipClockwise first = landscapeFlipClockwise options"
    by (simp_all add: upd)
  have unsplit: "processLoadedImage calculateOverlapSegments imgWidth imgHeight p first =
      [extractAndRotate
         (pageName p ''0'' (if orientation options = Portrait then ''page'' else ''spread''))
         0 0 (rect_width crop) (rect_height crop)
         (if orientation options = Portrait then 0
          else if landscapeFlipClockwise options then - 90 else 90)]" for p
    unfolding processLoadedImage_def same_crop
    by (simp add: mode orient flip Let_def)
  have pages: "pages =
      [extractAndRotate
         (pageName pageNum ''0'' (if orientation options = Portrait then ''page'' else ''spread''))
         0 0 (rect_width crop) (rect_height crop)
         (if orientation options = Portrait then 0
          else if landscapeFlipClockwise options then - 90 else 90)]"
    unfolding pages_def by (rule unsplit)
  have loaded: "processImage calculateOverlapSegments (Some (imgWidth, imgHeight)) pageNum first
      = pages"
    by (simp add: processImage_def pages_def)
  have broken: "processImage calculateOverlapSegments None pageNum first = []"
    by (simp add: processImage_def)
  have front: "hd (convertArchivePages calculateOverlapSegments imgBlobs options)
      = extractAndRotate
          (pageName 1 ''0'' (if orientation options = Portrait then ''page'' else ''spread''))
          0 0 (rect_width crop) (rect_height crop)
          (if orientation options = Portrait then 0
           else if landscapeFlipClockwise options then - 90 else 90)"
    if some: "imgBlobs \<noteq> []" and loads: "imgBlobs ! 0 = Some (imgWidth, imgHeight)"
      and n: "length imgBlobs \<le> 9999"
      and segs: "\<forall>a b. length (calculateOverlapSegments a b) \<le> 26"
  proof -
    let ?f = "\<lambda>index. processImage calculateOverlapSegments (imgBlobs ! index) (index + 1)
        (getPageOptions options index)"
    have "[0 ..< length imgBlobs] = 0 # [1 ..< length imgBlobs]"
      using some by (simp add: upt_conv_Cons)
    then have "concat (map ?f [0 ..< length imgBlobs])
        = ?f 0 @ concat (map ?f [1 ..< length imgBlobs])"
      by simp
    moreover have "?f 0 = processLoadedImage calculateOverlapSegments imgWidth imgHeight 1 first"
      by (simp add: loads processImage_def first_def)
    ultimately have "hd (concat (map ?f [0 ..< length imgBlobs]))
        = extractAndRotate
            (pageName 1 ''0'' (if orientation options = Portrait then ''page'' else ''spread''))
            0 0 (rect_width crop) (rect_height crop)
            (if orientation options = Portrait then 0
             else if landscapeFlipClockwise options then - 90 else 90)"
      by (simp add: unsplit)
    then show ?thesis
      unfolding convertArchivePages_in_order [OF n segs] .
  qed
  show ?thesis
    using mode upd loaded broken front by (simp add: pages extractAndRotate_def)
qed

theorem first_page_never_split_witness:
  "coverPage noCover = None \<and> coverImagePath noCover = None
   \<and> map originalPage (moveCoverToFront tenFiles noCover) = [1, 2, 3, 4, 5, 6, 7, 8, 9, 10]
   \<and> splitMode overlapOptions = ''overlap''
   \<and> splitMode (getPageOptions overlapOptions 0) = ''nosplit''
   \<and> length (processLoadedImage threeSegments 600 900 3 (getPageOptions overlapOptions 0)) = 1
   \<and> twoImages \<noteq> [] \<and> twoImages ! 0 = Some (600, 900) \<and> length twoImages \<le> 9999
   \<and> hd (convertArchivePages threeSegments twoImages overlapOptions)
       = \<lparr> name = ''0001_0_spread.png'', src_x = 0, src_y = 0, src_w = 600, src_h = 900,
           rotation = 90 \<rparr>
   \<and> map name (convertArchivePages threeSegments twoImages overlapOptions)
       = [''0001_0_spread.png'', ''0002_3_a.png'', ''0002_3_b.png'', ''0002_3_c.png'']"
proof -
  have order: "map originalPage (moveCoverToFront tenFiles noCover)
                 = [1, 2, 3, 4, 5, 6, 7, 8, 9, 10]"
    by (simp add: tenFiles_unfold moveCoverToFront_def coverIndexByPage_def noCover_def)
  have mode: "splitMode overlapOptions = ''overlap''"
    by (simp add: overlapOptions_def)
  have none: "coverPage noCover = None" "coverImagePath noCover = None"
    by (simp_all add: noCover_def)
  note first = first_page_never_split [of overlapOptions threeSegments 600 900 3 twoImages]
  have unsplit: "splitMode (getPageOptions overlapOptions 0) = ''nosplit''"
    using first by blast
  have one: "length (processLoadedImage threeSegments 600 900 3 (getPageOptions overlapOptions 0)) = 1"
    using first by blast
  have archive: "twoImages \<noteq> []" "twoImages ! 0 = Some (600, 900)" "length twoImages \<le> 9999"
    by (simp_all add: twoImages_def)
  have segs: "\<forall>a b. length (threeSegments a b) \<le> 26"
    by (simp add: threeSegments_def)
  have crop: "getAxisCropRect 600 900 overlapOptions
      = \<lparr> rect_x = 0, rect_y = 0, rect_width = 600, rect_height = 900 \<rparr>"
    by (simp add: getAxisCropRect_def overlapOptions_def)
  have settings: "orientation overlapOptions = Landscape"
      "landscapeFlipClockwise overlapOptions = False"
    by (simp_all add: overlapOptions_def)
  have "hd (convertArchivePages threeSegments twoImages overlapOptions)
      = extractAndRotate
          (pageName 1 ''0'' (if orientation overlapOptions = Portrait then ''page'' else ''spread''))
          0 0 (rect_width (getAxisCropRect 600 900 overlapOptions))
          (rect_height (getAxisCropRect 600 900 overlapOptions))
          (if orientation overlapOptions = Portrait then 0
           else if landscapeFlipClockwise overlapOptions then - 90 else 90)"
    using first archive segs by blast
  moreover have "pageName 1 ''0'' ''spread'' = ''0001_0_spread.png''"
    by code_simp
  ultimately have front: "hd (convertArchivePages threeSegments twoImages overlapOptions)
       = \<lparr> name = ''0001_0_spread.png'', src_x = 0, src_y = 0, src_w = 600, src_h = 900,
           rotation = 90 \<rparr>"
    by (simp add: crop extractAndRotate_def settings)
  have names: "map name (convertArchivePages threeSegments twoImages overlapOptions)
       = [''0001_0_spread.png'', ''0002_3_a.png'', ''0002_3_b.png'', ''0002_3_c.png'']"
    by code_simp
  show ?thesis
    using none order mode unsplit one archive front names by blast
qed

text \<open>
  When the image at index 0 does not load, index 0 gives no page, and the first page of
  the output is the first overlap segment of the image at index 1: it is drawn from 360
  of the 900 rows of that image.
\<close>

theorem first_output_page_split_counterexample:
  "firstImageBroken ! 0 = None
   \<and> splitMode (getPageOptions overlapOptions 0) = ''nosplit''
   \<and> processImage threeSegments (firstImageBroken ! 0) 1 (getPageOptions overlapOptions 0) = []
   \<and> map name (convertArchivePages threeSegments firstImageBroken overlapOptions)
       = [''0002_3_a.png'', ''0002_3_b.png'', ''0002_3_c.png'']
   \<and> hd (convertArchivePages threeSegments firstImageBroken overlapOptions)
       = \<lparr> name = ''0002_3_a.png'', src_x = 0, src_y = 0, src_w = 600, src_h = 360,
           rotation = 90 \<rparr>
   \<and> rect_height (getAxisCropRect 600 900 overlapOptions) = 900"
proof -
  have broken: "firstImageBroken ! 0 = None"
    by (simp add: firstImageBroken_def)
  have mode: "splitMode (getPageOptions overlapOptions 0) = ''nosplit''"
    by (rule getPageOptions_first)
  have noPage: "processImage threeSegments (firstImageBroken ! 0) 1
      (getPageOptions overlapOptions 0) = []"
    by (simp add: broken processImage_def)
  have names: "map name (convertArchivePages threeSegments firstImageBroken overlapOptions)
       = [''0002_3_a.png'', ''0002_3_b.png'', ''0002_3_c.png'']"
    by code_simp
  have front: "hd (convertArchivePages threeSegments firstImageBroken overlapOptions)
       = \<lparr> name = ''0002_3_a.png'', src_x = 0, src_y = 0, src_w = 600, src_h = 360,
           rotation = 90 \<rparr>"
    by code_simp
  have whole: "rect_height (getAxisCropRect 600 900 overlapOptions) = 900"
    by (simp add: getAxisCropRect_def overlapOptions_def)
  show ?thesis
    using broken mode noPage names front whole by blast
qed

section \<open>The worker pool\<close>

lemma settle_Some: "settle jid outcome ps jid \<noteq> None"
  by (simp add: settle_def split: option.splits)

lemma settle_pending: "ps jid = None \<Longrightarrow> settle jid outcome ps jid = Some outcome"
  by (simp add: settle_def)

lemma settle_other: "k \<noteq> jid \<Longrightarrow> settle jid outcome ps k = ps k"
  by (simp add: settle_def split: option.splits)

lemma settle_keeps: "ps k = Some v \<Longrightarrow> settle jid outcome ps k = Some v"
  by (auto simp add: settle_def split: option.splits)

lemma settle_None: "settle jid outcome ps k = None \<longleftrightarrow> ps k = None \<and> k \<noteq> jid"
  by (auto simp add: settle_def split: option.splits)

lemma drainQueue_keeps: "ps k = Some v \<Longrightarrow> drainQueue q ps k = Some v"
  by (induction q arbitrary: ps) (simp_all add: settle_keeps)

lemma drainQueue_None: "drainQueue q ps k = None \<longleftrightarrow> ps k = None \<and> k \<notin> jobId ` set q"
  by (induction q arbitrary: ps) (auto simp add: settle_None)

lemma drainQueue_rejects:
  "ps k = None \<Longrightarrow> k \<in> jobId ` set q \<Longrightarrow>
   drainQueue q ps k = Some (Rejected ''Worker pool destroyed'')"
proof (induction q arbitrary: ps)
  case Nil
  then show ?case by simp
next
  case (Cons job q)
  show ?case
  proof (cases "k = jobId job")
    case True
    then have "settle (jobId job) (Rejected ''Worker pool destroyed'') ps k
        = Some (Rejected ''Worker pool destroyed'')"
      using Cons.prems(1) by (simp add: settle_pending)
    then show ?thesis
      by (simp add: drainQueue_keeps)
  next
    case False
    then show ?thesis
      using Cons by (simp add: settle_other)
  qed
qed

lemma set_inFlightList: "set (inFlightList ss) = inFlight ss"
  by (auto simp add: inFlightList_def inFlight_def split: option.splits)

lemma drainQueue_append: "drainQueue (q @ q') ps = drainQueue q' (drainQueue q ps)"
  by (induction q arbitrary: ps) simp_all

lemma fst_destroySlots:
  "fst (destroySlots ss ps) = map (\<lambda>slot. slot\<lparr> currentJob := None, terminated := True \<rparr>) ss"
  by (induction ss arbitrary: ps) (simp_all add: case_prod_beta split: option.splits)

lemma snd_destroySlots: "snd (destroySlots ss ps) = drainQueue (inFlightList ss) ps"
  by (induction ss arbitrary: ps)
     (simp_all add: case_prod_beta inFlightList_def split: option.splits)

lemma destroy_eq:
  "destroy p =
     (if isDestroyed p then p
      else p\<lparr> isDestroyed := True,
             slots := map (\<lambda>slot. slot\<lparr> currentJob := None, terminated := True \<rparr>) (slots p),
             queue := [],
             promises := drainQueue (inFlightList (slots p) @ queue p) (promises p) \<rparr>)"
  by (simp add: destroy_def case_prod_beta fst_destroySlots snd_destroySlots drainQueue_append)

lemma heldJobs_list: "heldJobs p = set (inFlightList (slots p) @ queue p)"
  by (auto simp add: heldJobs_def set_inFlightList)

lemma destroy_idempotent: "destroy (destroy p) = destroy p"
  by (simp add: destroy_eq)

lemma destroy_state:
  "isDestroyed (destroy p)"
  "\<not> isDestroyed p \<Longrightarrow> queue (destroy p) = []"
  "\<not> isDestroyed p \<Longrightarrow> slot \<in> set (slots (destroy p)) \<Longrightarrow> terminated slot \<and> currentJob slot = None"
  by (auto simp add: destroy_eq)

lemma destroy_rejects_held:
  assumes "\<not> isDestroyed p" "job \<in> heldJobs p" "promises p (jobId job) = None"
  shows "promises (destroy p) (jobId job) = Some (Rejected ''Worker pool destroyed'')"
  using assms by (simp add: destroy_eq heldJobs_list drainQueue_rejects)

lemma destroy_pending:
  "promises (destroy p) k = None \<longleftrightarrow>
     promises p k = None \<and> (isDestroyed p \<or> k \<notin> jobId ` heldJobs p)"
  by (auto simp add: destroy_eq heldJobs_list drainQueue_None)

lemma destroy_keeps: "promises p k = Some v \<Longrightarrow> promises (destroy p) k = Some v"
  by (simp add: destroy_eq drainQueue_keeps)

lemma nextJobId_destroy: "nextJobId (destroy p) = nextJobId p"
  by (simp add: destroy_eq)

lemma inFlight_Cons:
  "inFlight (slot # rest) = (case currentJob slot of None \<Rightarrow> {} | Some job \<Rightarrow> {job}) \<union> inFlight rest"
  by (auto simp add: inFlight_def split: option.splits)

lemma idleIsFree_Cons:
  "idleIsFree (slot # rest) \<longleftrightarrow> (\<not> busy slot \<longrightarrow> currentJob slot = None) \<and> idleIsFree rest"
  by (simp add: idleIsFree_def)

lemma pumpSlots_held:
  assumes "idleIsFree ss"
  shows "inFlight (fst (pumpSlots ss q)) \<union> set (snd (pumpSlots ss q)) = inFlight ss \<union> set q"
  using assms
proof (induction ss q rule: pumpSlots.induct)
  case (1 q)
  then show ?case by simp
next
  case (2 slot rest q)
  show ?case
  proof (cases "busy slot")
    case True
    then show ?thesis
      using 2 by (auto simp add: inFlight_Cons idleIsFree_Cons case_prod_beta split: option.splits)
  next
    case False
    then have free: "currentJob slot = None"
      using "2.prems" by (simp add: idleIsFree_Cons)
    show ?thesis
    proof (cases q)
      case Nil
      then show ?thesis
        using False by simp
    next
      case (Cons job q')
      have "inFlight (fst (pumpSlots rest q')) \<union> set (snd (pumpSlots rest q')) = inFlight rest \<union> set q'"
        using "2.IH"(2) [OF False Cons] "2.prems" by (simp add: idleIsFree_Cons)
      then show ?thesis
        using False Cons free by (auto simp add: inFlight_Cons case_prod_beta)
    qed
  qed
qed

lemma pumpSlots_idle:
  assumes "idleIsFree ss"
  shows "idleIsFree (fst (pumpSlots ss q))"
  using assms
  by (induction ss q rule: pumpSlots.induct)
     (auto simp add: idleIsFree_Cons case_prod_beta split: list.splits)

lemma pump_held:
  assumes "idleIsFree (slots p)"
  shows "heldJobs (pump p) = heldJobs p"
  using pumpSlots_held [OF assms, of "queue p"]
  by (auto simp add: pump_def heldJobs_def case_prod_beta)

lemma pump_idle: "idleIsFree (slots p) \<Longrightarrow> idleIsFree (slots (pump p))"
  by (simp add: pump_def case_prod_beta pumpSlots_idle)

lemma pump_fields:
  "promises (pump p) = promises p" "nextJobId (pump p) = nextJobId p"
  "isDestroyed (pump p) = isDestroyed p"
  by (simp_all add: pump_def case_prod_beta)

lemma pump_destroyed: "isDestroyed p \<Longrightarrow> pump p = p"
  by (simp add: pump_def)

lemma pendingIds_pump: "pendingIds (pump p) = pendingIds p"
  by (simp add: pendingIds_def pump_fields)

lemma poolInv_pump:
  assumes "poolInv p"
  shows "poolInv (pump p)"
proof (cases "isDestroyed p")
  case True
  then show ?thesis using assms by (simp add: pump_destroyed)
next
  case False
  then show ?thesis
    using assms by (simp add: poolInv_def pump_held pump_idle pendingIds_pump pump_fields)
qed

lemma poolInv_created: "poolInv (newConvertWorkerPool n)"
  by (auto simp add: poolInv_def newConvertWorkerPool_def pendingIds_def idleIsFree_def)

lemma poolInv_processPage:
  assumes "poolInv p"
  shows "poolInv (snd (processPage pageNum preview p))"
proof (cases "isDestroyed p")
  case True
  then show ?thesis using assms by (simp add: processPage_def)
next
  case False
  let ?job = "\<lparr> jobId = nextJobId p, jobPageNum = pageNum, includePreview = preview \<rparr>"
  let ?p1 = "p\<lparr> nextJobId := nextJobId p + 1, queue := queue p @ [?job] \<rparr>"
  have "pendingIds ?p1 \<subseteq> insert (nextJobId p) (pendingIds p)"
    by (auto simp add: pendingIds_def)
  moreover have "heldJobs ?p1 = insert ?job (heldJobs p)"
    by (auto simp add: heldJobs_def)
  ultimately have "pendingIds ?p1 \<subseteq> jobId ` heldJobs ?p1"
    using assms by (auto simp add: poolInv_def)
  then have "poolInv ?p1"
    using assms False by (simp add: poolInv_def)
  then have "poolInv (pump ?p1)"
    by (rule poolInv_pump)
  then show ?thesis
    using False by (simp add: processPage_def Let_def)
qed

lemma inFlight_freed:
  assumes "i < length ss" "job' \<in> inFlight ss" "currentJob (ss ! i) \<noteq> Some job'"
  shows "job' \<in> inFlight (ss[i := (ss ! i)\<lparr> busy := False, currentJob := None \<rparr>])"
proof -
  from assms(2) obtain k where k: "k < length ss" "currentJob (ss ! k) = Some job'"
    by (auto simp add: inFlight_def in_set_conv_nth)
  then have "k \<noteq> i"
    using assms(3) by auto
  let ?ss = "ss[i := (ss ! i)\<lparr> busy := False, currentJob := None \<rparr>]"
  have same: "?ss ! k = ss ! k"
    using \<open>k \<noteq> i\<close> by simp
  have "?ss ! k \<in> set ?ss"
    using k(1) by (intro nth_mem) simp
  moreover have "currentJob (?ss ! k) = Some job'"
    using k(2) by (simp only: same)
  ultimately have "\<exists>slot\<in>set ?ss. currentJob slot = Some job'"
    by (rule bexI [rotated])
  then show ?thesis
    by (simp add: inFlight_def)
qed

lemma idleIsFree_freed:
  assumes "idleIsFree ss"
  shows "idleIsFree (ss[i := (ss ! i)\<lparr> busy := False, currentJob := None \<rparr>])"
  using assms unfolding idleIsFree_def
  by (auto dest!: set_update_subset_insert [THEN subsetD])

lemma freed_destroyed:
  assumes "\<forall>slot\<in>set ss. terminated slot \<and> currentJob slot = None" "i < length ss"
  shows "\<forall>slot\<in>set (ss[i := (ss ! i)\<lparr> busy := False, currentJob := None \<rparr>]).
           terminated slot \<and> currentJob slot = None"
  using assms by (auto dest!: set_update_subset_insert [THEN subsetD])

lemma poolInv_settled_slot:
  assumes inv: "poolInv p" and i: "i < length (slots p)"
      and ps: "ps = (case currentJob (slots p ! i) of None \<Rightarrow> promises p
                     | Some job \<Rightarrow> settle (jobId job) outcome (promises p))"
  shows "poolInv (p\<lparr> slots := (slots p)[i := (slots p ! i)\<lparr> busy := False, currentJob := None \<rparr>],
                     promises := ps \<rparr>)"
    (is "poolInv ?p1")
proof -
  have pending: "pendingIds ?p1 \<subseteq> jobId ` heldJobs ?p1"
  proof
    fix k
    assume k: "k \<in> pendingIds ?p1"
    then have none: "ps k = None" and bounds: "1 \<le> k" "k < nextJobId p"
      by (simp_all add: pendingIds_def)
    have before: "promises p k = None"
      using none unfolding ps by (auto simp add: settle_None split: option.splits)
    then have "k \<in> jobId ` heldJobs p"
      using inv bounds by (auto simp add: poolInv_def pendingIds_def)
    then obtain job' where job': "job' \<in> heldJobs p" "jobId job' = k"
      by auto
    have "currentJob (slots p ! i) \<noteq> Some job'"
      using none job'(2) unfolding ps by (auto simp add: settle_None)
    then have "job' \<in> heldJobs ?p1"
      using job'(1) i by (auto simp add: heldJobs_def inFlight_freed)
    then show "k \<in> jobId ` heldJobs ?p1"
      using job'(2) by auto
  qed
  have idle: "idleIsFree (slots ?p1)"
    using inv by (simp add: poolInv_def idleIsFree_freed)
  have gone: "isDestroyed ?p1 \<longrightarrow>
      queue ?p1 = [] \<and> (\<forall>slot\<in>set (slots ?p1). terminated slot \<and> currentJob slot = None)"
    using inv i freed_destroyed [of "slots p" i] by (simp add: poolInv_def)
  show ?thesis
    unfolding poolInv_def using pending idle gone by blast
qed

lemma poolInv_onmessage:
  assumes "poolInv p"
  shows "poolInv (onmessage i message p)"
proof (cases "i < length (slots p) \<and> (\<exists>job. currentJob (slots p ! i) = Some job
          \<and> jobId job = responseJobId message)")
  case False
  then have "onmessage i message p = p"
    by (auto simp add: onmessage_def split: option.splits)
  then show ?thesis using assms by simp
next
  case True
  then obtain job where i: "i < length (slots p)" and job: "currentJob (slots p ! i) = Some job"
      "jobId job = responseJobId message"
    by blast
  show ?thesis
    using poolInv_pump [OF poolInv_settled_slot [OF assms i]] i job
    by (simp add: onmessage_def Let_def)
qed

lemma poolInv_onerror:
  assumes "poolInv p"
  shows "poolInv (onerror i eventMessage p)"
proof (cases "i < length (slots p)")
  case False
  then show ?thesis using assms by (simp add: onerror_def)
next
  case True
  show ?thesis
    using poolInv_pump [OF poolInv_settled_slot [OF assms True]] True
    by (simp add: onerror_def Let_def)
qed

lemma poolInv_destroy:
  assumes "poolInv p"
  shows "poolInv (destroy p)"
proof (cases "isDestroyed p")
  case True
  then show ?thesis using assms by (simp add: destroy_eq)
next
  case False
  have "pendingIds (destroy p) = {}"
    using assms False by (auto simp add: pendingIds_def poolInv_def destroy_pending nextJobId_destroy)
  then show ?thesis
    using False by (auto simp add: poolInv_def destroy_eq idleIsFree_def)
qed

lemma reachablePool_inv: "reachablePool p \<Longrightarrow> poolInv p"
  by (induction rule: reachablePool.induct)
     (simp_all add: poolInv_created poolInv_processPage poolInv_onmessage poolInv_onerror
        poolInv_destroy)

text \<open>
  Claim C9. In every state a pool can reach, \<open>destroy\<close> rejects the pending promise of
  every queued job and of every job in flight with the error
  \<^verbatim>\<open>Worker pool destroyed\<close>, so that every promise pending before the call is rejected
  and none is pending after it; promises settled before keep their outcome; afterwards
  every worker is terminated, no slot has a current job, the queue is empty and the pool
  is marked destroyed; and a second call changes nothing.
\<close>

theorem destroy_rejects_all_and_is_idempotent:
  assumes "reachablePool p"
  shows "(\<forall>job\<in>heldJobs p. promises p (jobId job) = None \<longrightarrow>
            promises (destroy p) (jobId job) = Some (Rejected ''Worker pool destroyed''))
       \<and> (\<forall>jid\<in>pendingIds p. promises (destroy p) jid = Some (Rejected ''Worker pool destroyed''))
       \<and> pendingIds (destroy p) = {}
       \<and> (\<forall>jid outcome. promises p jid = Some outcome \<longrightarrow> promises (destroy p) jid = Some outcome)
       \<and> (\<forall>slot\<in>set (slots (destroy p)). terminated slot \<and> currentJob slot = None)
       \<and> queue (destroy p) = [] \<and> isDestroyed (destroy p)
       \<and> destroy (destroy p) = destroy p"
proof -
  have inv: "poolInv p"
    using assms by (rule reachablePool_inv)
  have inv': "poolInv (destroy p)"
    using inv by (rule poolInv_destroy)
  have gone: "isDestroyed (destroy p)"
    by (rule destroy_state(1))
  have held: "\<forall>job\<in>heldJobs p. promises p (jobId job) = None \<longrightarrow>
      promises (destroy p) (jobId job) = Some (Rejected ''Worker pool destroyed'')"
  proof (intro ballI impI)
    fix job
    assume job: "job \<in> heldJobs p" "promises p (jobId job) = None"
    have "\<not> isDestroyed p"
      using inv job(1) by (auto simp add: poolInv_def heldJobs_def inFlight_def)
    then show "promises (destroy p) (jobId job) = Some (Rejected ''Worker pool destroyed'')"
      using job by (rule destroy_rejects_held)
  qed
  have pending: "\<forall>jid\<in>pendingIds p.
      promises (destroy p) jid = Some (Rejected ''Worker pool destroyed'')"
  proof
    fix jid
    assume jid: "jid \<in> pendingIds p"
    then obtain job where job: "job \<in> heldJobs p" "jobId job = jid"
      using inv by (auto simp add: poolInv_def)
    have "promises p (jobId job) = None"
      using jid job(2) by (simp add: pendingIds_def)
    then show "promises (destroy p) jid = Some (Rejected ''Worker pool destroyed'')"
      using held job by auto
  qed
  have none: "pendingIds (destroy p) = {}"
  proof -
    have "heldJobs (destroy p) = {}"
      using inv' gone by (auto simp add: poolInv_def heldJobs_def inFlight_def)
    then show ?thesis
      using inv' by (simp add: poolInv_def)
  qed
  have kept: "\<forall>jid outcome. promises p jid = Some outcome \<longrightarrow>
      promises (destroy p) jid = Some outcome"
    by (simp add: destroy_keeps)
  have state: "(\<forall>slot\<in>set (slots (destroy p)). terminated slot \<and> currentJob slot = None)
      \<and> queue (destroy p) = []"
    using inv' gone by (simp add: poolInv_def)
  show ?thesis
    using held pending none kept state gone destroy_idempotent [of p] by blast
qed

lemma busyPool_value:
  "busyPool =
     \<lparr> slots = [\<lparr> busy = True,
                  currentJob = Some \<lparr> jobId = 1, jobPageNum = 1, includePreview = False \<rparr>,
                  terminated = False \<rparr>,
                \<lparr> busy = True,
                  currentJob = Some \<lparr> jobId = 2, jobPageNum = 2, includePreview = False \<rparr>,
                  terminated = False \<rparr>],
       queue = [\<lparr> jobId = 3, jobPageNum = 3, includePreview = False \<rparr>],
       nextJobId = 4, isDestroyed = False, promises = Map.empty \<rparr>"
  by (simp add: busyPool_def processPage_def newConvertWorkerPool_def pump_def Let_def
        numeral_2_eq_2)

theorem destroy_rejects_all_and_is_idempotent_witness:
  "reachablePool busyPool
   \<and> pendingIds busyPool = {1, 2, 3}
   \<and> promises (destroy busyPool) 1 = Some (Rejected ''Worker pool destroyed'')
   \<and> promises (destroy busyPool) 2 = Some (Rejected ''Worker pool destroyed'')
   \<and> promises (destroy busyPool) 3 = Some (Rejected ''Worker pool destroyed'')
   \<and> queue (destroy busyPool) = []
   \<and> map terminated (slots (destroy busyPool)) = [True, True]
   \<and> destroy (destroy busyPool) = destroy busyPool"
proof -
  have reach: "reachablePool busyPool"
    unfolding busyPool_def by (intro reachablePool.intros)
  have pending: "pendingIds busyPool = {1, 2, 3}"
    by (auto simp add: pendingIds_def busyPool_value)
  note all = destroy_rejects_all_and_is_idempotent [OF reach]
  have rejected: "\<forall>jid\<in>{1, 2, 3}.
      promises (destroy busyPool) jid = Some (Rejected ''Worker pool destroyed'')"
    using all pending by simp
  have workers: "map terminated (slots (destroy busyPool)) = [True, True]"
    by (simp add: busyPool_value destroy_eq)
  have "queue (destroy busyPool) = []" "destroy (destroy busyPool) = destroy busyPool"
    using all by blast+
  then show ?thesis
    using reach pending rejected workers by simp
qed

section \<open>Falling back to in-process work when a worker job fails\<close>












lemma isDestroyed_processPage: "isDestroyed (snd (processPage n b p)) = isDestroyed p"
  by (auto simp add: processPage_def Let_def pump_fields)









lemma setSlot_other [simp]:
  "workerDisabled (setSlot s st r) = workerDisabled r" "pool (setSlot s st r) = pool r"
  "poolObject (setSlot s st r) = poolObject r" "nextIndex (setSlot s st r) = nextIndex r"
  by (simp_all add: setSlot_def)

lemma enterLoop_other [simp]:
  "workerDisabled (enterLoop s r) = workerDisabled r" "pool (enterLoop s r) = pool r"
  "poolObject (enterLoop s r) = poolObject r"
  by (simp_all add: enterLoop_def Let_def)


lemma finishPage_other [simp]:
  "workerDisabled (finishPage s i pr r) = workerDisabled r" "pool (finishPage s i pr r) = pool r"
  "poolObject (finishPage s i pr r) = poolObject r"
  by (simp_all add: finishPage_def)






























































end
